theory Spec2Isabelle
  imports Main "HOL-Library.Word"
begin

unbundle bit_operations_syntax

section \<open>The Python and C library operations that incidr calls\<close>

text \<open>
  \<^verbatim>\<open>incidr.py\<close> builds a \<^verbatim>\<open>Net\<close> from a text, renders it in four formats and applies a
  netmask with \<^verbatim>\<open>&\<close>. Texts are \<^typ>\<open>string\<close>s, Python integers are \<^typ>\<open>int\<close>s, the packed
  address (\<^verbatim>\<open>bytes\<close> of length 4) is a list of 8-bit words. A character is a code point
  below 256; among these the digits that \<^verbatim>\<open>\d\<close> of \<^verbatim>\<open>re\<close> matches are \<^verbatim>\<open>0\<close> to \<^verbatim>\<open>9\<close>, those of
  \<^verbatim>\<open>isdigit\<close> in C.

  The exceptions of the program are the values of \<open>error\<close>: \<^verbatim>\<open>ValueError\<close> is raised by
  \<^verbatim>\<open>__init__\<close> and \<^verbatim>\<open>bits2int\<close> (the specification's InvalidFormat), \<^verbatim>\<open>OSError\<close> by
  \<^verbatim>\<open>socket.inet_aton\<close> and \<^verbatim>\<open>socket.inet_ntoa\<close> (the specification's InvalidAddress),
  \<^verbatim>\<open>struct.error\<close> by \<^verbatim>\<open>struct.unpack\<close>.
\<close>

type_synonym byte = "8 word"

datatype error = ValueError | OSError | StructError

subsection \<open>Characters and digits\<close>

definition isdigit :: "char \<Rightarrow> bool" where
  "isdigit c = (c \<in> set ''0123456789'')"

definition isxdigit :: "char \<Rightarrow> bool" where
  "isxdigit c = (c \<in> set ''0123456789abcdefABCDEF'')"

text \<open>C's \<^verbatim>\<open>isascii(c) && isspace(c)\<close>: blank, tab, newline, vertical tab, form feed, return.\<close>

definition isspace :: "char \<Rightarrow> bool" where
  "isspace c = (c \<in> set [CHR '' '', CHR 0x09, CHR 0x0A, CHR 0x0B, CHR 0x0C, CHR 0x0D])"

text \<open>The white space that Python's \<^verbatim>\<open>int()\<close> drops around a numeral (code points below 256).\<close>

definition py_isspace :: "char \<Rightarrow> bool" where
  "py_isspace c = (c \<in> set [CHR '' '', CHR 0x09, CHR 0x0A, CHR 0x0B, CHR 0x0C, CHR 0x0D,
                              CHR 0x1C, CHR 0x1D, CHR 0x1E, CHR 0x1F, CHR 0x85, CHR 0xA0])"

text \<open>The value of a character as a digit (\<^verbatim>\<open>0-9\<close>, then the letters in either case).\<close>

definition digit_of :: "char \<Rightarrow> nat option" where
  "digit_of c = (let n = of_char c :: nat in
     if 48 \<le> n \<and> n \<le> 57 then Some (n - 48)
     else if 97 \<le> n \<and> n \<le> 122 then Some (n - 87)
     else if 65 \<le> n \<and> n \<le> 90 then Some (n - 55)
     else None)"

text \<open>The character of a digit below 16, lowercase as \<^verbatim>\<open>'d'\<close>, \<^verbatim>\<open>'x'\<close> and \<^verbatim>\<open>'b'\<close> format it.\<close>

definition digit_char :: "nat \<Rightarrow> char" where
  "digit_char d = ''0123456789abcdef'' ! d"

definition valid_digit :: "nat \<Rightarrow> char \<Rightarrow> bool" where
  "valid_digit base c = (case digit_of c of None \<Rightarrow> False | Some d \<Rightarrow> d < base)"

definition digits_value :: "nat \<Rightarrow> string \<Rightarrow> nat" where
  "digits_value base ds = foldl (\<lambda>acc c. acc * base + the (digit_of c)) 0 ds"

subsection \<open>Python: \<^verbatim>\<open>int()\<close>, \<^verbatim>\<open>str()\<close> and \<^verbatim>\<open>format\<close>\<close>

definition strip :: "string \<Rightarrow> string" where
  "strip s = rev (dropWhile py_isspace (rev (dropWhile py_isspace s)))"

text \<open>
  \<^verbatim>\<open>int(s)\<close> and \<^verbatim>\<open>int(s, 2)\<close>: surrounding white space is dropped, a sign may lead, the rest
  must be a non-empty run of digits of the base; anything else raises \<^verbatim>\<open>ValueError\<close>
  (\<open>None\<close>). The program calls it on digit runs, digit runs padded with blanks, and runs of
  \<^verbatim>\<open>1\<close> and \<^verbatim>\<open>0\<close> only, so that underscores and base prefixes are left out.
\<close>

definition py_int :: "nat \<Rightarrow> string \<Rightarrow> int option" where
  "py_int base s =
     (let t = strip s;
          neg = (t \<noteq> [] \<and> hd t = CHR ''-'');
          ds = (if t \<noteq> [] \<and> (hd t = CHR ''-'' \<or> hd t = CHR ''+'') then tl t else t)
      in if ds = [] \<or> \<not> list_all (valid_digit base) ds then None
         else Some ((if neg then - 1 else 1) * int (digits_value base ds)))"

text \<open>The digits of a natural number in a base from 2 to 16, most significant first.\<close>

function to_base :: "nat \<Rightarrow> nat \<Rightarrow> string" where
  "to_base b n = (if b < 2 \<or> n < b then [digit_char n]
                  else to_base b (n div b) @ [digit_char (n mod b)])"
  by pat_completeness auto
termination
  by (relation "measure snd") auto

declare to_base.simps [simp del]

text \<open>\<^verbatim>\<open>str(n)\<close> of an integer.\<close>

definition py_str :: "int \<Rightarrow> string" where
  "py_str n = (if n < 0 then CHR ''-'' # to_base 10 (nat (- n)) else to_base 10 (nat n))"

definition zfill :: "nat \<Rightarrow> string \<Rightarrow> string" where
  "zfill w s = replicate (w - length s) CHR ''0'' @ s"

text \<open>
  \<^verbatim>\<open>'{:0Wd}'.format(n)\<close>, \<^verbatim>\<open>'{:0Wx}'\<close> and \<^verbatim>\<open>'{:0Wb}'\<close> (base 10, 16, 2): zeros fill the
  width after the sign.
\<close>

definition format_zero :: "nat \<Rightarrow> nat \<Rightarrow> int \<Rightarrow> string" where
  "format_zero w base n =
     (if n < 0 then CHR ''-'' # zfill (w - 1) (to_base base (nat (- n)))
      else zfill w (to_base base (nat n)))"

text \<open>\<^verbatim>\<open>'{:>W}'.format(s)\<close> of a text: blanks on the left up to the width.\<close>

definition format_right :: "nat \<Rightarrow> string \<Rightarrow> string" where
  "format_right w s = replicate (w - length s) CHR '' '' @ s"

text \<open>\<^verbatim>\<open>s.split(c)\<close> for a one-character separator, and \<^verbatim>\<open>sep.join(parts)\<close>.\<close>

fun split_str :: "char \<Rightarrow> string \<Rightarrow> string list" where
  "split_str c [] = [[]]"
| "split_str c (x # xs) =
     (if x = c then [] # split_str c xs
      else (x # hd (split_str c xs)) # tl (split_str c xs))"

fun join :: "string \<Rightarrow> string list \<Rightarrow> string" where
  "join sep [] = []"
| "join sep [p] = p"
| "join sep (p # q # ps) = p @ sep @ join sep (q # ps)"

text \<open>\<^verbatim>\<open>xs[i:j]\<close> for \<open>0 \<le> i \<le> j\<close>, and \<^verbatim>\<open>struct.unpack('B', bs)[0]\<close>, which takes exactly one byte.\<close>

definition py_slice :: "'a list \<Rightarrow> nat \<Rightarrow> nat \<Rightarrow> 'a list" where
  "py_slice xs i j = take (j - i) (drop i xs)"

definition unpack_B :: "byte list \<Rightarrow> error + byte" where
  "unpack_B bs = (case bs of [b] \<Rightarrow> Inr b | _ \<Rightarrow> Inl StructError)"

subsection \<open>The C library: \<^verbatim>\<open>strtoul\<close>, \<^verbatim>\<open>inet_aton\<close>, \<^verbatim>\<open>inet_ntoa\<close>\<close>

text \<open>
  \<^verbatim>\<open>socket.inet_aton\<close> is the C library's \<^verbatim>\<open>inet_aton\<close>, modelled here after the GNU C
  library's source: up to four numbers separated by dots, each read by
  \<^verbatim>\<open>strtoul(cp, &endp, 0)\<close>, so decimal, octal after a leading \<^verbatim>\<open>0\<close>, hexadecimal after
  \<^verbatim>\<open>0x\<close>; every number before a dot is one byte, the last number fills the bytes that
  remain; after the last number the text ends, or white space follows and the rest is not
  read.

  \<open>strtoul_digits\<close> is the digit loop of \<^verbatim>\<open>strtoul\<close>. \<^verbatim>\<open>inet_aton\<close> calls \<^verbatim>\<open>strtoul\<close>
  only on a text that starts with a digit, so its white space and sign handling are
  not modelled. The value is not truncated: \<^verbatim>\<open>inet_aton\<close> rejects an overflow of
  \<^verbatim>\<open>strtoul\<close> and every value above \<^verbatim>\<open>0xffffffff\<close> alike.
\<close>

fun strtoul_digits :: "nat \<Rightarrow> nat \<Rightarrow> string \<Rightarrow> nat \<times> string" where
  "strtoul_digits base acc [] = (acc, [])"
| "strtoul_digits base acc (c # cs) =
     (if valid_digit base c then strtoul_digits base (acc * base + the (digit_of c)) cs
      else (acc, c # cs))"

definition strtoul :: "string \<Rightarrow> nat \<times> string" where
  "strtoul cp =
     (if length cp \<ge> 2 \<and> hd cp = CHR ''0'' \<and> (cp ! 1 = CHR ''x'' \<or> cp ! 1 = CHR ''X'') then
        (if length cp \<ge> 3 \<and> isxdigit (cp ! 2) then strtoul_digits 16 0 (drop 2 cp)
         else (0, tl cp))
      else if cp \<noteq> [] \<and> hd cp = CHR ''0'' then strtoul_digits 8 0 cp
      else strtoul_digits 10 0 cp)"

text \<open>The \<open>k\<close> low bytes of \<open>v\<close>, most significant first (network byte order).\<close>

fun be_bytes :: "nat \<Rightarrow> nat \<Rightarrow> byte list" where
  "be_bytes 0 v = []"
| "be_bytes (Suc k) v = of_nat (v div 256 ^ k) # be_bytes k v"

text \<open>
  The end of \<^verbatim>\<open>inet_aton\<close>: \<open>pp\<close> are the bytes stored so far, \<open>val\<close> the last number,
  \<open>rest\<close> the text after it. The last number must fit the remaining bytes
  (\<^verbatim>\<open>max[pp - res.bytes]\<close>).
\<close>

definition inet_aton_end :: "byte list \<Rightarrow> nat \<Rightarrow> string \<Rightarrow> byte list option" where
  "inet_aton_end pp val rest =
     (if rest \<noteq> [] \<and> \<not> isspace (hd rest) then None
      else if val > 256 ^ (4 - length pp) - 1 then None
      else Some (pp @ be_bytes (4 - length pp) val))"

function inet_aton_loop :: "byte list \<Rightarrow> string \<Rightarrow> byte list option" where
  "inet_aton_loop pp cp =
     (if cp = [] \<or> \<not> isdigit (hd cp) then None
      else (case strtoul cp of (val, endp) \<Rightarrow>
        if val > 0xffffffff then None
        else if endp \<noteq> [] \<and> hd endp = CHR ''.'' then
          (if length pp > 2 \<or> val > 0xff then None
           else inet_aton_loop (pp @ [of_nat val]) (tl endp))
        else inet_aton_end pp val endp))"
  by pat_completeness auto
termination
  by (relation "measure (\<lambda>(pp, cp). 3 - length pp)") auto

declare inet_aton_loop.simps [simp del]

definition inet_aton :: "string \<Rightarrow> byte list option" where
  "inet_aton cp = inet_aton_loop [] cp"

text \<open>
  \<^verbatim>\<open>socket.inet_aton\<close>: the argument converter refuses a text with a NUL character
  (\<^verbatim>\<open>ValueError\<close> since Python 3.5), the C function then reads the text, and a refusal
  there raises \<^verbatim>\<open>OSError\<close>.
\<close>

definition socket_inet_aton :: "string \<Rightarrow> error + byte list" where
  "socket_inet_aton s =
     (if CHR 0x00 \<in> set s then Inl ValueError
      else (case inet_aton s of None \<Rightarrow> Inl OSError | Some bs \<Rightarrow> Inr bs))"

text \<open>\<^verbatim>\<open>socket.inet_ntoa\<close>: four bytes as decimal numbers with dots; another length raises.\<close>

definition inet_ntoa :: "byte list \<Rightarrow> error + string" where
  "inet_ntoa bs =
     (if length bs \<noteq> 4 then Inl OSError
      else Inr (join ''.'' (map (\<lambda>b. py_str (uint b)) bs)))"

section \<open>The class \<^verbatim>\<open>Net\<close>\<close>

text \<open>
  \<^verbatim>\<open>self.formats\<close> is a dictionary with the four keys of \<^verbatim>\<open>all_formats\<close>; each entry holds
  the rendered text (\<^verbatim>\<open>'as string'\<close>) and the visibility flag (\<^verbatim>\<open>'show'\<close>). The keys are
  fixed, so the dictionary is a total function on them.
\<close>

datatype fmtkey = Quad | Bin | Dec | Hex

record fmt =
  as_string :: string
  shown :: bool

datatype Net = Net
  (orig: string)
  (mask_net: "Net option")
  (masked: "Net option")
  (raw: "byte list")
  (formats: "fmtkey \<Rightarrow> fmt")

definition all_formats :: "fmtkey list" where
  "all_formats = [Quad, Bin, Dec, Hex]"

subsection \<open>\<^verbatim>\<open>bits2int\<close>\<close>

definition bits2int :: "string \<Rightarrow> error + string" where
  "bits2int mask_s =
     (case py_int 10 mask_s of
        None \<Rightarrow> Inl ValueError
      | Some m \<Rightarrow>
          if 1 \<le> m \<and> m \<le> 32 then
            (case py_int 2 (replicate (nat m) CHR ''1'' @ replicate (nat (32 - m)) CHR ''0'') of
               None \<Rightarrow> Inl ValueError
             | Some v \<Rightarrow> Inr (py_str v))
          else Inl ValueError)"

subsection \<open>\<^verbatim>\<open>Net.__init__\<close> and \<^verbatim>\<open>Net.__and__\<close>\<close>

text \<open>
  \<^verbatim>\<open>sum(256**(3-x) * struct.unpack('B', self.raw[x:x+1])[0] for x in range(4))\<close>, the
  second argument being the range.
\<close>

fun dec_sum :: "byte list \<Rightarrow> nat list \<Rightarrow> error + int" where
  "dec_sum bs [] = Inr 0"
| "dec_sum bs (x # xs) =
     (case unpack_B (py_slice bs x (x + 1)) of
        Inl e \<Rightarrow> Inl e
      | Inr b \<Rightarrow>
          (case dec_sum bs xs of
             Inl e \<Rightarrow> Inl e
           | Inr t \<Rightarrow> Inr (256 ^ (3 - x) * uint b + t)))"

text \<open>
  Lines 88 to 95 of \<^verbatim>\<open>__init__\<close>: the packed address of \<open>base_address\<close> and the four
  texts. \<^verbatim>\<open>self.masked\<close> is still \<^verbatim>\<open>None\<close> here.
\<close>

definition Net_populate ::
  "string \<Rightarrow> Net option \<Rightarrow> string \<Rightarrow> bool \<Rightarrow> bool \<Rightarrow> bool \<Rightarrow> bool \<Rightarrow> error + Net" where
  "Net_populate orig0 mask0 base_address show_quad show_bin show_dec show_hex =
     (case socket_inet_aton base_address of
        Inl e \<Rightarrow> Inl e
      | Inr raw0 \<Rightarrow>
     (case inet_ntoa raw0 of
        Inl e \<Rightarrow> Inl e
      | Inr ntoa \<Rightarrow>
     (let quad_s = join ''.'' (map (format_right 3) (split_str CHR ''.'' ntoa)) in
     (case dec_sum raw0 [0, 1, 2, 3] of
        Inl e \<Rightarrow> Inl e
      | Inr dec_v \<Rightarrow>
     (let dec_s = format_zero 10 10 dec_v in
     (case py_int 10 dec_s of
        None \<Rightarrow> Inl ValueError
      | Some v \<Rightarrow>
     (let hex_s = format_zero 8 16 v in
     (case those (map (py_int 10) (split_str CHR ''.'' quad_s)) of
        None \<Rightarrow> Inl ValueError
      | Some octets \<Rightarrow>
     (let bin_s = join '' '' (map (format_zero 8 2) octets) in
      Inr (Net orig0 mask0 None raw0
            (\<lambda>k. case k of
                   Quad \<Rightarrow> \<lparr>as_string = quad_s, shown = show_quad\<rparr>
                 | Bin \<Rightarrow> \<lparr>as_string = bin_s, shown = show_bin\<rparr>
                 | Dec \<Rightarrow> \<lparr>as_string = dec_s, shown = show_dec\<rparr>
                 | Hex \<Rightarrow> \<lparr>as_string = hex_s, shown = show_hex\<rparr>)))))))))))"

text \<open>
  The loop of \<^verbatim>\<open>__and__\<close> over \<^verbatim>\<open>range(4)\<close>:
  \<^verbatim>\<open>newnet[o] = unpack('B', self.raw[o:o+1])[0] & unpack('B', other.raw[o:o+1])[0]\<close>.
\<close>

fun and_loop :: "byte list \<Rightarrow> byte list \<Rightarrow> nat list \<Rightarrow> byte list \<Rightarrow> error + byte list" where
  "and_loop sraw oraw [] newnet = Inr newnet"
| "and_loop sraw oraw (i # is) newnet =
     (case unpack_B (py_slice sraw i (i + 1)) of
        Inl e \<Rightarrow> Inl e
      | Inr a \<Rightarrow>
          (case unpack_B (py_slice oraw i (i + 1)) of
             Inl e \<Rightarrow> Inl e
           | Inr b \<Rightarrow> and_loop sraw oraw is (newnet[i := a AND b])))"

definition and_raw :: "byte list \<Rightarrow> byte list \<Rightarrow> error + string" where
  "and_raw sraw oraw =
     (case socket_inet_aton ''0.0.0.0'' of
        Inl e \<Rightarrow> Inl e
      | Inr newnet \<Rightarrow>
          (case and_loop sraw oraw [0, 1, 2, 3] newnet of
             Inl e \<Rightarrow> Inl e
           | Inr bs \<Rightarrow> inet_ntoa bs))"

lemma count_list_split_str:
  "length (split_str c s) = Suc (count_list s c)"
  by (induction s) auto

lemma split_str_nonempty: "split_str c s \<noteq> []"
  by (induction s) auto

lemma split_str_unslashed: "p \<in> set (split_str c s) \<Longrightarrow> c \<notin> set p"
proof (induction s arbitrary: p)
  case Nil
  then show ?case by simp
next
  case (Cons x xs)
  have ne: "split_str c xs \<noteq> []" by (rule split_str_nonempty)
  then have hdin: "hd (split_str c xs) \<in> set (split_str c xs)" by simp
  show ?case
  proof (cases "x = c")
    case True
    with Cons show ?thesis by auto
  next
    case False
    with Cons.prems have "p = x # hd (split_str c xs) \<or> p \<in> set (tl (split_str c xs))"
      by simp
    then show ?thesis
    proof
      assume "p = x # hd (split_str c xs)"
      with False Cons.IH [OF hdin] show ?thesis by auto
    next
      assume "p \<in> set (tl (split_str c xs))"
      then have "p \<in> set (split_str c xs)" using ne by (meson list.set_sel(2))
      then show ?thesis by (rule Cons.IH)
    qed
  qed
qed

lemma count_list_zero: "c \<notin> set s \<Longrightarrow> count_list s c = 0"
  by (induction s) auto

lemma count_list_pos: "c \<in> set s \<Longrightarrow> 0 < count_list s c"
  by (induction s) auto

lemma digit_char_unslashed:
  "d < 16 \<Longrightarrow> digit_char d \<notin> {CHR ''/'', CHR ''.'', CHR '' '', CHR 0x00}"
  unfolding digit_char_def
  by (auto simp: less_Suc_eq numeral_eq_Suc nth_Cons')

lemma to_base_10_unslashed:
  "set (to_base 10 n) \<inter> {CHR ''/'', CHR ''.'', CHR '' '', CHR 0x00} = {}"
proof (induction n rule: less_induct)
  case (less n)
  show ?case
  proof (cases "n < 10")
    case True
    then have "digit_char n \<notin> {CHR ''/'', CHR ''.'', CHR '' '', CHR 0x00}"
      by (intro digit_char_unslashed) simp
    with True show ?thesis by (simp add: to_base.simps [of 10 n])
  next
    case False
    then have "n div 10 < n" by simp
    from less.IH [OF this]
    have ih: "set (to_base 10 (n div 10)) \<inter> {CHR ''/'', CHR ''.'', CHR '' '', CHR 0x00} = {}" .
    have "digit_char (n mod 10) \<notin> {CHR ''/'', CHR ''.'', CHR '' '', CHR 0x00}"
      by (intro digit_char_unslashed) simp
    with False ih show ?thesis by (simp add: to_base.simps [of 10 n])
  qed
qed

lemma py_str_unslashed: "CHR ''/'' \<notin> set (py_str n)"
  using to_base_10_unslashed [of "nat n"] to_base_10_unslashed [of "nat (- n)"]
  by (auto simp: py_str_def)

lemma join_unslashed:
  "\<forall>p \<in> set ps. c \<notin> set p \<Longrightarrow> c \<notin> set sep \<Longrightarrow> c \<notin> set (join sep ps)"
  by (induction sep ps rule: join.induct) auto

lemma inet_ntoa_unslashed:
  assumes "inet_ntoa bs = Inr s"
  shows "CHR ''/'' \<notin> set s"
proof -
  have s: "s = join ''.'' (map (\<lambda>b. py_str (uint b)) bs)"
    using assms by (simp add: inet_ntoa_def split: if_splits)
  have "CHR ''/'' \<notin> set (join ''.'' (map (\<lambda>b. py_str (uint b)) bs))"
    by (rule join_unslashed) (auto simp: py_str_unslashed)
  then show ?thesis by (simp add: s)
qed

lemma and_raw_unslashed: "and_raw a b = Inr s \<Longrightarrow> count_list s CHR ''/'' = 0"
  by (auto simp: and_raw_def split: sum.splits dest!: inet_ntoa_unslashed intro: count_list_zero)

lemma split_str_pair_count:
  assumes "split_str c s = [a, b]"
  shows "count_list b c = 0" and "count_list s c = 1"
proof -
  have "b \<in> set (split_str c s)" using assms by simp
  then show "count_list b c = 0" by (intro count_list_zero split_str_unslashed)
  show "count_list s c = 1" using count_list_split_str [of c s] assms by simp
qed

text \<open>
  \<^verbatim>\<open>__init__\<close> calls itself on the netmask text and, through \<^verbatim>\<open>self & self.mask\<close>, on the
  dotted text of the masked address; \<^verbatim>\<open>__and__\<close> calls \<^verbatim>\<open>__init__\<close>. \<^verbatim>\<open>self.mask\<close> is set in
  the one-slash branch only and an instance of \<^verbatim>\<open>Net\<close> is always true, so the final
  \<^verbatim>\<open>if self.mask\<close> of \<^verbatim>\<open>__init__\<close> is taken exactly in that branch, where it is written here.
  Unpacking \<^verbatim>\<open>self.orig.split('/')\<close> into two names raises \<^verbatim>\<open>ValueError\<close> for any other
  number of parts. \<^verbatim>\<open>__and__\<close> passes the four flags in the order of \<^verbatim>\<open>all_formats\<close>.
\<close>

function Net_init :: "string \<Rightarrow> bool \<Rightarrow> bool \<Rightarrow> bool \<Rightarrow> bool \<Rightarrow> error + Net"
  and Net_and :: "Net \<Rightarrow> Net \<Rightarrow> error + Net" where
  "Net_init net show_quad show_bin show_dec show_hex =
     (if CHR ''/'' \<in> set net then
        (if count_list net CHR ''/'' > 1 then Inl ValueError
         else
           (case split_str CHR ''/'' net of
              [base_address, netmask] \<Rightarrow>
                (case Net_init netmask show_quad show_bin show_dec show_hex of
                   Inl e \<Rightarrow> Inl e
                 | Inr m \<Rightarrow>
                     (case Net_populate net (Some m) base_address
                             show_quad show_bin show_dec show_hex of
                        Inl e \<Rightarrow> Inl e
                      | Inr self \<Rightarrow>
                          (case Net_and self m of
                             Inl e \<Rightarrow> Inl e
                           | Inr r \<Rightarrow>
                               Inr (Net (orig self) (mask_net self) (Some r)
                                        (raw self) (formats self)))))
            | _ \<Rightarrow> Inl ValueError))
      else if CHR ''.'' \<notin> set net then
        (if length net \<le> 10 \<and> list_ex isdigit net \<and> list_all isdigit net then
           (case py_int 10 net of
              None \<Rightarrow> Inl ValueError
            | Some v \<Rightarrow>
                if v \<le> 32 then
                  (case bits2int net of
                     Inl e \<Rightarrow> Inl e
                   | Inr base_address \<Rightarrow>
                       Net_populate net None base_address show_quad show_bin show_dec show_hex)
                else Net_populate net None net show_quad show_bin show_dec show_hex)
         else if length net \<le> 8 \<and> list_all isxdigit net then
           Net_populate net None (''0x'' @ net) show_quad show_bin show_dec show_hex
         else Inl ValueError)
      else Net_populate net None net show_quad show_bin show_dec show_hex)"
| "Net_and self other =
     (case and_raw (raw self) (raw other) of
        Inl e \<Rightarrow> Inl e
      | Inr quad_text \<Rightarrow>
          Net_init quad_text (shown (formats self Quad)) (shown (formats self Bin))
            (shown (formats self Dec)) (shown (formats self Hex)))"
  by pat_completeness auto
termination
proof (relation "measure (\<lambda>x. case x of
          Inl (net, _) \<Rightarrow> 2 * count_list net CHR ''/''
        | Inr _ \<Rightarrow> 1)", goal_cases)
  case 1
  show ?case by simp
next
  case (2 net show_quad show_bin show_dec show_hex x21 x22 x21a x22a)
  then show ?case using split_str_pair_count [of "CHR ''/''" net x21 x21a] by simp
next
  case (3 net)
  then show ?case using count_list_pos [of "CHR ''/''" net] by simp
next
  case (4 self other a)
  then show ?case by (simp add: and_raw_unslashed)
qed

declare Net_init.simps [simp del] Net_and.simps [simp del]

text \<open>\<^verbatim>\<open>Net.__str__\<close>. Both \<^verbatim>\<open>if self.mask\<close> and \<^verbatim>\<open>if self.masked\<close> test for an instance.\<close>

fun Net_str :: "Net \<Rightarrow> string" where
  "Net_str (Net orig0 mask0 masked0 raw0 formats0) =
     (let the_string = join ''  <=>  ''
            (map (\<lambda>k. as_string (formats0 k)) (filter (\<lambda>k. shown (formats0 k)) all_formats));
          the_string = (case mask0 of
                          None \<Rightarrow> the_string
                        | Some m \<Rightarrow> ''   '' @ the_string @ [CHR 0x0A] @ '' & '' @ Net_str m);
          the_string = (case masked0 of
                          None \<Rightarrow> the_string
                        | Some r \<Rightarrow> the_string @ [CHR 0x0A] @ '' = '' @ Net_str r)
      in the_string)"

section \<open>The representations as the specification words them\<close>

text \<open>
  Section 4.3 of the specification, on the four raw bytes: quad is the bytes in decimal,
  each right-aligned to width 3, separated by dots; binary is the bytes as 8 binary
  digits, separated by blanks; decimal is the big-endian 32-bit value padded with zeros
  to 10 digits; hex is the same value in 8 lowercase hexadecimal digits.
\<close>

definition be_value :: "byte list \<Rightarrow> int" where
  "be_value bs = foldl (\<lambda>v b. 256 * v + uint b) 0 bs"

definition spec_quad :: "byte list \<Rightarrow> string" where
  "spec_quad bs = join ''.'' (map (\<lambda>b. format_right 3 (py_str (uint b))) bs)"

definition spec_binary :: "byte list \<Rightarrow> string" where
  "spec_binary bs = join '' '' (map (\<lambda>b. format_zero 8 2 (uint b)) bs)"

definition spec_decimal :: "byte list \<Rightarrow> string" where
  "spec_decimal bs = format_zero 10 10 (be_value bs)"

definition spec_hex :: "byte list \<Rightarrow> string" where
  "spec_hex bs = format_zero 8 16 (be_value bs)"

definition spec_formats :: "byte list \<Rightarrow> bool \<Rightarrow> bool \<Rightarrow> bool \<Rightarrow> bool \<Rightarrow> fmtkey \<Rightarrow> fmt" where
  "spec_formats bs show_quad show_bin show_dec show_hex =
     (\<lambda>k. case k of
            Quad \<Rightarrow> \<lparr>as_string = spec_quad bs, shown = show_quad\<rparr>
          | Bin \<Rightarrow> \<lparr>as_string = spec_binary bs, shown = show_bin\<rparr>
          | Dec \<Rightarrow> \<lparr>as_string = spec_decimal bs, shown = show_dec\<rparr>
          | Hex \<Rightarrow> \<lparr>as_string = spec_hex bs, shown = show_hex\<rparr>)"

text \<open>
  The line of the visible representations: in the order quad, binary, decimal, hex,
  joined by the separator, a representation left out when its flag is false.
\<close>

definition spec_line :: "byte list \<Rightarrow> bool \<Rightarrow> bool \<Rightarrow> bool \<Rightarrow> bool \<Rightarrow> string" where
  "spec_line bs show_quad show_bin show_dec show_hex =
     join ''  <=>  ''
       ((if show_quad then [spec_quad bs] else []) @
        (if show_bin then [spec_binary bs] else []) @
        (if show_dec then [spec_decimal bs] else []) @
        (if show_hex then [spec_hex bs] else []))"

section \<open>Notions that the statements use\<close>

text \<open>The dotted text of a packed address, and the byte-wise AND of two of them.\<close>

definition dotted :: "byte list \<Rightarrow> string" where
  "dotted bs = join ''.'' (map (\<lambda>b. py_str (uint b)) bs)"

definition and_bytes :: "byte list \<Rightarrow> byte list \<Rightarrow> byte list" where
  "and_bytes xs ys = map2 (\<lambda>x y. x AND y) xs ys"

text \<open>The value \<^verbatim>\<open>a & b\<close> builds from the packed addresses and the flags of \<^verbatim>\<open>a\<close>.\<close>

definition masked_net :: "byte list \<Rightarrow> byte list \<Rightarrow> bool \<Rightarrow> bool \<Rightarrow> bool \<Rightarrow> bool \<Rightarrow> Net" where
  "masked_net xs ys show_quad show_bin show_dec show_hex =
     Net (dotted (and_bytes xs ys)) None None (and_bytes xs ys)
         (spec_formats (and_bytes xs ys) show_quad show_bin show_dec show_hex)"

text \<open>The set \<^verbatim>\<open>visibleFormats\<close> of the specification: the keys whose flag is set.\<close>

definition visible_formats :: "Net \<Rightarrow> fmtkey set" where
  "visible_formats n = set (filter (\<lambda>k. shown (formats n k)) all_formats)"

text \<open>A number written with exactly \<open>w\<close> digits of the base, zeros in front.\<close>

fun fixed_digits :: "nat \<Rightarrow> nat \<Rightarrow> nat \<Rightarrow> string" where
  "fixed_digits base 0 v = []"
| "fixed_digits base (Suc w) v = fixed_digits base w (v div base) @ [digit_char (v mod base)]"

text \<open>
  The \<^verbatim>\<open>base_address\<close> that lines 56 to 78 of \<^verbatim>\<open>__init__\<close> compute for a text without
  a slash (the normalized base of the specification), or the error they raise.
\<close>

definition normalized_base :: "string \<Rightarrow> error + string" where
  "normalized_base net =
     (if CHR ''.'' \<notin> set net then
        (if length net \<le> 10 \<and> list_ex isdigit net \<and> list_all isdigit net then
           (case py_int 10 net of
              None \<Rightarrow> Inl ValueError
            | Some v \<Rightarrow> if v \<le> 32 then bits2int net else Inr net)
         else if length net \<le> 8 \<and> list_all isxdigit net then Inr (''0x'' @ net)
         else Inl ValueError)
      else Inr net)"

section \<open>Digits, numerals and the address parser\<close>

subsection \<open>Digits and numerals\<close>

lemma digit_of_digit_char: "d < 16 \<Longrightarrow> digit_of (digit_char d) = Some d"
  unfolding digit_char_def digit_of_def
  by (auto simp: less_Suc_eq numeral_eq_Suc nth_Cons')

lemma valid_digit_digit_char: "d < b \<Longrightarrow> b \<le> 16 \<Longrightarrow> valid_digit b (digit_char d)"
  by (simp add: valid_digit_def digit_of_digit_char)

lemma to_base_nonempty: "to_base b n \<noteq> []"
  by (subst to_base.simps) simp

lemma to_base_valid:
  assumes b: "2 \<le> b" "b \<le> 16"
  shows "list_all (valid_digit b) (to_base b n)"
proof (induction n rule: less_induct)
  case (less n)
  show ?case
  proof (cases "n < b")
    case True
    with b show ?thesis by (simp add: to_base.simps [of b n] valid_digit_digit_char)
  next
    case False
    with b have "n div b < n" by simp
    from less.IH [OF this] False b show ?thesis
      by (simp add: to_base.simps [of b n] valid_digit_digit_char)
  qed
qed

lemma digits_value_snoc:
  "digits_value b (ds @ [c]) = digits_value b ds * b + the (digit_of c)"
  by (simp add: digits_value_def)

lemma digits_value_to_base:
  assumes b: "2 \<le> b" "b \<le> 16"
  shows "digits_value b (to_base b n) = n"
proof (induction n rule: less_induct)
  case (less n)
  show ?case
  proof (cases "n < b")
    case True
    with b show ?thesis
      by (simp add: to_base.simps [of b n] digits_value_def digit_of_digit_char)
  next
    case False
    with b have lt: "n div b < n" by simp
    have "n mod b < b" using b by simp
    then have "n mod b < 16" using b by linarith
    with less.IH [OF lt] False b show ?thesis
      by (simp add: to_base.simps [of b n] digits_value_snoc digit_of_digit_char)
  qed
qed

lemma strtoul_digits_append:
  "list_all (valid_digit b) ds \<Longrightarrow> rest = [] \<or> \<not> valid_digit b (hd rest) \<Longrightarrow>
   strtoul_digits b acc (ds @ rest) = (foldl (\<lambda>acc c. acc * b + the (digit_of c)) acc ds, rest)"
proof (induction ds arbitrary: acc)
  case Nil
  then show ?case by (cases rest) auto
next
  case (Cons c cs)
  then show ?case by simp
qed

lemma foldl_digits_acc:
  "foldl (\<lambda>acc c. acc * b + the (digit_of c)) acc ds = acc * b ^ length ds + digits_value b ds"
proof (induction ds rule: rev_induct)
  case Nil
  then show ?case by (simp add: digits_value_def)
next
  case (snoc c cs)
  then show ?case by (simp add: digits_value_snoc algebra_simps)
qed

lemma isdigit_digit_of: "isdigit c \<Longrightarrow> \<exists>d<10. digit_of c = Some d"
  by (auto simp: isdigit_def digit_of_def)

lemma valid_digit_10: "valid_digit 10 c = isdigit c"
proof
  assume "isdigit c"
  then show "valid_digit 10 c" using isdigit_digit_of [of c] by (auto simp: valid_digit_def)
next
  assume v: "valid_digit 10 c"
  then have r: "48 \<le> (of_char c :: nat)" "(of_char c :: nat) \<le> 57"
    by (auto simp: valid_digit_def digit_of_def Let_def split: if_splits)
  have "\<And>n::nat. 48 \<le> n \<Longrightarrow> n \<le> 57 \<Longrightarrow> n \<in> {48,49,50,51,52,53,54,55,56,57}"
    by (simp only: insert_iff empty_iff) presburger
  from this [OF r] have "(of_char c :: nat) \<in> of_char ` set ''0123456789''" by simp
  then obtain x where x: "x \<in> set ''0123456789''" and "(of_char c :: nat) = of_char x"
    by blast
  then have "c = x" by (simp only: of_char_eq_iff)
  with x show "isdigit c" by (simp only: isdigit_def)
qed

lemma dot_not_digit: "\<not> valid_digit b CHR ''.''" "\<not> valid_digit b CHR '' ''"
  by (simp_all add: valid_digit_def digit_of_def)

lemma digit_char_nonzero: "0 < d \<Longrightarrow> d < 16 \<Longrightarrow> digit_char d \<noteq> CHR ''0''"
  unfolding digit_char_def
  by (auto simp: less_Suc_eq numeral_eq_Suc nth_Cons')

lemma hd_to_base_nonzero:
  assumes b: "2 \<le> b" "b \<le> 16"
  shows "0 < n \<Longrightarrow> hd (to_base b n) \<noteq> CHR ''0''"
proof (induction n rule: less_induct)
  case (less n)
  show ?case
  proof (cases "n < b")
    case True
    with b less.prems show ?thesis by (simp add: to_base.simps [of b n] digit_char_nonzero)
  next
    case False
    with b have lt: "n div b < n" and pos: "0 < n div b" by (simp_all add: div_greater_zero_iff)
    from less.IH [OF lt pos] False b show ?thesis
      by (simp add: to_base.simps [of b n] to_base_nonempty)
  qed
qed

lemma to_base_zero: "to_base b 0 = ''0''"
  by (auto simp: to_base.simps [of b 0] digit_char_def)

subsection \<open>\<^verbatim>\<open>strtoul\<close> reads back what \<^verbatim>\<open>str\<close> writes\<close>

lemma strtoul_decimal:
  assumes "list_all isdigit ds" "ds \<noteq> []" "hd ds \<noteq> CHR ''0''"
    and "rest = [] \<or> \<not> valid_digit 10 (hd rest)"
  shows "strtoul (ds @ rest) = (digits_value 10 ds, rest)"
proof -
  have v: "list_all (valid_digit 10) ds" using assms(1) by (simp add: valid_digit_10 list_all_iff)
  have "strtoul (ds @ rest) = strtoul_digits 10 0 (ds @ rest)"
    using assms(2,3) by (simp add: strtoul_def)
  also have "\<dots> = (digits_value 10 ds, rest)"
    using strtoul_digits_append [OF v assms(4), of 0] by (simp add: digits_value_def)
  finally show ?thesis .
qed

lemma strtoul_zero:
  assumes "rest = [] \<or> (\<not> valid_digit 8 (hd rest) \<and> hd rest \<noteq> CHR ''x'' \<and> hd rest \<noteq> CHR ''X'')"
  shows "strtoul (CHR ''0'' # rest) = (0, rest)"
proof -
  have z: "valid_digit 8 CHR ''0''" "digit_of CHR ''0'' = Some 0"
    by (simp_all add: valid_digit_def digit_of_def)
  have "strtoul (CHR ''0'' # rest) = strtoul_digits 8 0 (CHR ''0'' # rest)"
    using assms by (cases rest) (auto simp: strtoul_def)
  also have "\<dots> = strtoul_digits 8 0 rest" using z by simp
  also have "\<dots> = (0, rest)" using assms by (cases rest) auto
  finally show ?thesis .
qed

lemma strtoul_to_base:
  assumes "rest = [] \<or> hd rest = CHR ''.''"
  shows "strtoul (to_base 10 n @ rest) = (n, rest)"
proof (cases "n = 0")
  case True
  have "strtoul (CHR ''0'' # rest) = (0, rest)"
    using assms by (intro strtoul_zero) (auto simp: dot_not_digit)
  with True show ?thesis by (simp add: to_base_zero)
next
  case False
  have "list_all isdigit (to_base 10 n)"
    using to_base_valid [of 10 n] by (simp add: valid_digit_10 list_all_iff)
  moreover have "hd (to_base 10 n) \<noteq> CHR ''0''" using False by (intro hd_to_base_nonzero) simp_all
  moreover have "rest = [] \<or> \<not> valid_digit 10 (hd rest)" using assms by (auto simp: dot_not_digit)
  ultimately have "strtoul (to_base 10 n @ rest) = (digits_value 10 (to_base 10 n), rest)"
    by (intro strtoul_decimal) (simp_all add: to_base_nonempty)
  then show ?thesis by (simp add: digits_value_to_base)
qed

subsection \<open>\<^verbatim>\<open>inet_aton\<close> on dotted and decimal texts\<close>

lemma length_be_bytes: "length (be_bytes k v) = k"
  by (induction k) auto

lemma inet_aton_loop_length:
  "inet_aton_loop pp cp = Some bs \<Longrightarrow> length pp \<le> 3 \<Longrightarrow> length bs = 4"
proof (induction pp cp rule: inet_aton_loop.induct)
  case (1 pp cp)
  obtain val endp where st: "strtoul cp = (val, endp)" by (cases "strtoul cp")
  show ?case
  proof (cases "endp \<noteq> [] \<and> hd endp = CHR ''.''")
    case True
    with "1.prems" st have ok: "\<not> (cp = [] \<or> \<not> isdigit (hd cp))" "\<not> val > 0xffffffff"
      "\<not> (length pp > 2 \<or> val > 0xff)"
      and rec: "inet_aton_loop (pp @ [of_nat val]) (tl endp) = Some bs"
      by (auto simp: inet_aton_loop.simps [of pp cp] split: if_splits)
    from ok(3) have "length (pp @ [of_nat val :: byte]) \<le> 3" by simp
    from "1.IH" [OF ok(1) st [symmetric] ok(2) True ok(3) rec this] show ?thesis .
  next
    case False
    with "1.prems" st have "inet_aton_end pp val endp = Some bs"
      by (auto simp: inet_aton_loop.simps [of pp cp] split: if_splits)
    with "1.prems"(2) show ?thesis
      by (auto simp: inet_aton_end_def length_be_bytes split: if_splits)
  qed
qed

lemma inet_aton_length: "inet_aton cp = Some bs \<Longrightarrow> length bs = 4"
  using inet_aton_loop_length [of "[]" cp bs] by (simp add: inet_aton_def)

lemma isdigit_hd_to_base: "isdigit (hd (to_base 10 n))"
proof -
  have "list_all isdigit (to_base 10 n)"
    using to_base_valid [of 10 n] by (simp add: valid_digit_10 list_all_iff)
  then show ?thesis using to_base_nonempty [of 10 n] by (cases "to_base 10 n") auto
qed

lemma inet_aton_loop_part:
  assumes "length pp \<le> 2" "n \<le> 255"
  shows "inet_aton_loop pp (to_base 10 n @ CHR ''.'' # rest) = inet_aton_loop (pp @ [of_nat n]) rest"
proof -
  have st: "strtoul (to_base 10 n @ CHR ''.'' # rest) = (n, CHR ''.'' # rest)"
    by (rule strtoul_to_base) simp
  have hd: "isdigit (hd (to_base 10 n @ CHR ''.'' # rest))"
    using isdigit_hd_to_base [of n] to_base_nonempty [of 10 n] by simp
  show ?thesis
    using assms st hd to_base_nonempty [of 10 n]
    by (subst inet_aton_loop.simps) simp
qed

lemma inet_aton_loop_last:
  assumes "length pp \<le> 3" "n < 256 ^ (4 - length pp)"
  shows "inet_aton_loop pp (to_base 10 n) = Some (pp @ be_bytes (4 - length pp) n)"
proof -
  have st: "strtoul (to_base 10 n) = (n, [])"
    using strtoul_to_base [of "[]" n] by simp
  have "(256::nat) ^ (4 - length pp) \<le> 256 ^ 4" by (intro power_increasing) simp_all
  with assms(2) have le: "n \<le> 0xffffffff" by simp
  show ?thesis
    using assms st le isdigit_hd_to_base [of n] to_base_nonempty [of 10 n]
    by (subst inet_aton_loop.simps) (simp add: inet_aton_end_def)
qed

lemma unat_byte_le: "unat (b :: byte) \<le> 255"
proof -
  have "unat b < 2 ^ LENGTH(8)" by (rule unsigned_less)
  then show ?thesis by simp
qed

lemma py_str_uint: "py_str (uint (b :: byte)) = to_base 10 (unat b)"
  by (simp add: py_str_def)

lemma inet_ntoa_quad:
  "inet_ntoa [a, b, c, d] =
     Inr (to_base 10 (unat a) @ CHR ''.'' # to_base 10 (unat b) @ CHR ''.'' #
          to_base 10 (unat c) @ CHR ''.'' # to_base 10 (unat d))"
  by (simp add: inet_ntoa_def py_str_uint)

lemma inet_aton_quad:
  "inet_aton (to_base 10 (unat a) @ CHR ''.'' # to_base 10 (unat b) @ CHR ''.'' #
          to_base 10 (unat c) @ CHR ''.'' # to_base 10 (unat d)) = Some [a, b, c, d]"
proof -
  have "unat d < 256 ^ (4 - length [a, b, c])" using unat_byte_le [of d] by simp
  then have "inet_aton_loop [a, b, c] (to_base 10 (unat d)) = Some ([a, b, c] @ be_bytes (4 - length [a, b, c]) (unat d))"
    by (intro inet_aton_loop_last) simp_all
  then have "inet_aton_loop [a, b, c] (to_base 10 (unat d)) = Some [a, b, c, d]"
    by (simp add: numeral_eq_Suc)
  then show ?thesis
    using inet_aton_loop_part [of "[]" "unat a"] inet_aton_loop_part [of "[a]" "unat b"]
      inet_aton_loop_part [of "[a, b]" "unat c"]
    by (simp add: inet_aton_def unat_byte_le)
qed

lemma length4E:
  assumes "length (bs :: 'a list) = 4"
  obtains a b c d where "bs = [a, b, c, d]"
proof -
  from assms obtain a r1 where "bs = a # r1" "length r1 = 3" by (cases bs) auto
  moreover then obtain b r2 where "r1 = b # r2" "length r2 = 2" by (cases r1) auto
  moreover then obtain c r3 where "r2 = c # r3" "length r3 = 1" by (cases r2) auto
  moreover then obtain d where "r3 = [d]" by (cases r3) auto
  ultimately show ?thesis using that by simp
qed

subsection \<open>\<^verbatim>\<open>int\<close> reads back what \<^verbatim>\<open>format\<close> writes\<close>

lemma valid_digit_plain:
  "valid_digit b c \<Longrightarrow> \<not> py_isspace c \<and> c \<noteq> CHR ''-'' \<and> c \<noteq> CHR ''+'' \<and> c \<noteq> CHR ''.''"
  by (auto simp: valid_digit_def py_isspace_def digit_of_def)

lemma dropWhile_hd: "s \<noteq> [] \<Longrightarrow> \<not> P (hd s) \<Longrightarrow> dropWhile P s = s"
  by (cases s) auto

lemma strip_plain:
  assumes "s \<noteq> []" "\<not> py_isspace (hd s)" "\<not> py_isspace (last s)"
  shows "strip s = s"
proof -
  have "dropWhile py_isspace s = s" using assms by (simp add: dropWhile_hd)
  moreover have "dropWhile py_isspace (rev s) = rev s"
    using assms by (intro dropWhile_hd) (simp_all add: hd_rev)
  ultimately show ?thesis by (simp add: strip_def)
qed

lemma strip_blanks:
  assumes "s \<noteq> []" "\<not> py_isspace (hd s)" "\<not> py_isspace (last s)"
  shows "strip (replicate k CHR '' '' @ s) = s"
proof -
  have sp: "py_isspace CHR '' ''" by (simp add: py_isspace_def)
  have "dropWhile py_isspace (replicate k CHR '' '' @ s) = dropWhile py_isspace s"
    using sp by (induction k) auto
  then have "dropWhile py_isspace (replicate k CHR '' '' @ s) = s"
    using assms by (simp add: dropWhile_hd)
  moreover have "dropWhile py_isspace (rev s) = rev s"
    using assms by (intro dropWhile_hd) (simp_all add: hd_rev)
  ultimately show ?thesis by (simp add: strip_def)
qed

lemma py_int_stripped:
  assumes "list_all (valid_digit b) ds" "ds \<noteq> []" "strip s = ds"
  shows "py_int b s = Some (int (digits_value b ds))"
proof -
  have "valid_digit b (hd ds)" using assms(1,2) by (cases ds) auto
  then have "hd ds \<noteq> CHR ''-''" "hd ds \<noteq> CHR ''+''" using valid_digit_plain by blast+
  with assms show ?thesis by (simp add: py_int_def Let_def)
qed

lemma valid_digits_ends:
  assumes "list_all (valid_digit b) ds" "ds \<noteq> []"
  shows "\<not> py_isspace (hd ds)" "\<not> py_isspace (last ds)"
proof -
  have "hd ds \<in> set ds" "last ds \<in> set ds" using assms(2) by simp_all
  then have "valid_digit b (hd ds)" "valid_digit b (last ds)"
    using assms(1) by (simp_all add: list_all_iff)
  then show "\<not> py_isspace (hd ds)" "\<not> py_isspace (last ds)" using valid_digit_plain by blast+
qed

lemma py_int_digits:
  assumes "list_all (valid_digit b) ds" "ds \<noteq> []"
  shows "py_int b ds = Some (int (digits_value b ds))"
  using assms valid_digits_ends [OF assms] by (intro py_int_stripped strip_plain)

lemma py_int_blanks_digits:
  assumes "list_all (valid_digit b) ds" "ds \<noteq> []"
  shows "py_int b (replicate k CHR '' '' @ ds) = Some (int (digits_value b ds))"
  using assms valid_digits_ends [OF assms] by (intro py_int_stripped strip_blanks)

lemma valid_digit_zero: "0 < b \<Longrightarrow> valid_digit b CHR ''0''"
  by (simp add: valid_digit_def digit_of_def)

lemma digits_value_zeros: "digits_value b (replicate k CHR ''0'' @ ds) = digits_value b ds"
proof -
  have z: "digit_of CHR ''0'' = Some 0" by (simp add: digit_of_def)
  have "foldl (\<lambda>acc c. acc * b + the (digit_of c)) 0 (replicate k CHR ''0'') = 0"
    using z by (induction k) auto
  then show ?thesis by (simp add: digits_value_def)
qed

lemma py_int_format_zero:
  assumes "2 \<le> b" "b \<le> 16" "0 \<le> v"
  shows "py_int b (format_zero w b v) = Some v"
proof -
  let ?ds = "zfill w (to_base b (nat v))"
  have "list_all (valid_digit b) ?ds"
    using assms to_base_valid [of b "nat v"] by (auto simp: zfill_def valid_digit_zero list_all_iff)
  moreover have "?ds \<noteq> []" by (simp add: zfill_def to_base_nonempty)
  ultimately have "py_int b ?ds = Some (int (digits_value b ?ds))" by (rule py_int_digits)
  moreover have "digits_value b ?ds = nat v"
    using assms by (simp add: zfill_def digits_value_zeros digits_value_to_base)
  ultimately show ?thesis using assms by (simp add: format_zero_def)
qed

lemma py_int_format_right:
  "py_int 10 (format_right w (to_base 10 n)) = Some (int n)"
proof -
  have "py_int 10 (replicate (w - length (to_base 10 n)) CHR '' '' @ to_base 10 n)
        = Some (int (digits_value 10 (to_base 10 n)))"
    by (intro py_int_blanks_digits to_base_valid to_base_nonempty) simp_all
  then show ?thesis by (simp add: format_right_def digits_value_to_base)
qed

subsection \<open>\<^verbatim>\<open>split\<close> and \<^verbatim>\<open>join\<close>\<close>

lemma split_str_dotless: "c \<notin> set p \<Longrightarrow> split_str c p = [p]"
  by (induction p) auto

lemma split_str_append: "c \<notin> set p \<Longrightarrow> split_str c (p @ c # rest) = p # split_str c rest"
  by (induction p) auto

lemma split_str_join:
  "ps \<noteq> [] \<Longrightarrow> \<forall>p \<in> set ps. c \<notin> set p \<Longrightarrow> split_str c (join [c] ps) = ps"
proof (induction "[c]" ps rule: join.induct)
  case 1
  then show ?case by simp
next
  case (2 p)
  then show ?case by (simp add: split_str_dotless)
next
  case (3 p q ps)
  then show ?case by (simp add: split_str_append)
qed

lemma format_right_dotless: "CHR ''.'' \<notin> set (format_right w (to_base 10 n))"
  using to_base_10_unslashed [of n] by (auto simp: format_right_def)

lemma to_base_10_dotless: "CHR ''.'' \<notin> set (to_base 10 n)"
  using to_base_10_unslashed [of n] by auto

lemma dec_sum_quad:
  "dec_sum [a, b, c, d] [0, 1, 2, 3] = Inr (256 ^ 3 * uint a + 256 ^ 2 * uint b + 256 * uint c + uint d)"
  by (simp add: py_slice_def unpack_B_def)

lemma and_loop_quad:
  "and_loop [a, b, c, d] [a', b', c', d'] [0, 1, 2, 3] [w, x, y, z]
   = Inr [a AND a', b AND b', c AND c', d AND d']"
  by (simp add: py_slice_def unpack_B_def)

section \<open>The constructor and the mask operation, characterised\<close>

subsection \<open>The tail of \<^verbatim>\<open>__init__\<close> and \<^verbatim>\<open>__and__\<close>\<close>

lemma inet_ntoa_dotted: "length bs = 4 \<Longrightarrow> inet_ntoa bs = Inr (dotted bs)"
  by (simp add: inet_ntoa_def dotted_def)

lemma dotted_quad:
  "dotted [a, b, c, d] = to_base 10 (unat a) @ CHR ''.'' # to_base 10 (unat b) @ CHR ''.'' #
          to_base 10 (unat c) @ CHR ''.'' # to_base 10 (unat d)"
  by (simp add: dotted_def py_str_uint)

lemma inet_aton_dotted: "length bs = 4 \<Longrightarrow> inet_aton (dotted bs) = Some bs"
  by (erule length4E) (simp add: dotted_quad inet_aton_quad)

lemma dotted_has_dot: "length bs = 4 \<Longrightarrow> CHR ''.'' \<in> set (dotted bs)"
  by (erule length4E) (simp add: dotted_quad)

lemma dotted_unslashed: "length bs = 4 \<Longrightarrow> CHR ''/'' \<notin> set (dotted bs)"
  using inet_ntoa_unslashed [of bs "dotted bs"] by (simp add: inet_ntoa_dotted)

lemma split_dotted:
  "split_str CHR ''.'' (dotted [a, b, c, d]) =
     [to_base 10 (unat a), to_base 10 (unat b), to_base 10 (unat c), to_base 10 (unat d)]"
proof -
  let ?ps = "[to_base 10 (unat a), to_base 10 (unat b), to_base 10 (unat c), to_base 10 (unat d)]"
  have "dotted [a, b, c, d] = join [CHR ''.''] ?ps" by (simp add: dotted_def py_str_uint)
  moreover have "split_str CHR ''.'' (join [CHR ''.''] ?ps) = ?ps"
    by (rule split_str_join) (simp_all add: to_base_10_dotless)
  ultimately show ?thesis by simp
qed

lemma spec_quad_quad:
  "spec_quad [a, b, c, d] = join [CHR ''.'']
     [format_right 3 (to_base 10 (unat a)), format_right 3 (to_base 10 (unat b)),
      format_right 3 (to_base 10 (unat c)), format_right 3 (to_base 10 (unat d))]"
  by (simp add: spec_quad_def py_str_uint)

lemma split_spec_quad:
  "split_str CHR ''.'' (spec_quad [a, b, c, d]) =
     [format_right 3 (to_base 10 (unat a)), format_right 3 (to_base 10 (unat b)),
      format_right 3 (to_base 10 (unat c)), format_right 3 (to_base 10 (unat d))]"
  unfolding spec_quad_quad
  by (rule split_str_join) (simp_all add: format_right_dotless)

lemma be_value_quad:
  "be_value [a, b, c, d] = 256 ^ 3 * uint a + 256 ^ 2 * uint b + 256 * uint c + uint d"
  by (simp add: be_value_def)

lemma be_value_nonneg: "0 \<le> be_value bs"
proof -
  have "0 \<le> v \<Longrightarrow> 0 \<le> foldl (\<lambda>v b. 256 * v + uint (b :: byte)) v bs" for v
    by (induction bs arbitrary: v) auto
  then show ?thesis by (simp add: be_value_def)
qed

lemma socket_inet_aton_plain:
  "CHR 0x00 \<notin> set s \<Longrightarrow>
   socket_inet_aton s = (case inet_aton s of None \<Rightarrow> Inl OSError | Some bs \<Rightarrow> Inr bs)"
  by (simp add: socket_inet_aton_def)

lemma socket_inet_aton_Inr:
  assumes "socket_inet_aton s = Inr bs"
  shows "inet_aton s = Some bs" and "length bs = 4" and "CHR 0x00 \<notin> set s"
proof -
  show 1: "inet_aton s = Some bs" and "CHR 0x00 \<notin> set s"
    using assms by (auto simp: socket_inet_aton_def split: if_splits option.splits)
  show "length bs = 4" using 1 by (rule inet_aton_length)
qed

lemma dotted_plain: "length bs = 4 \<Longrightarrow> CHR 0x00 \<notin> set (dotted bs)"
proof -
  have "CHR 0x00 \<notin> set (join ''.'' (map (\<lambda>b. py_str (uint b)) bs))"
  proof (rule join_unslashed)
    show "\<forall>p\<in>set (map (\<lambda>b. py_str (uint b)) bs). CHR 0x00 \<notin> set p"
      using to_base_10_unslashed by (auto simp: py_str_def)
    show "CHR 0x00 \<notin> set ''.''" by simp
  qed
  then show ?thesis by (simp add: dotted_def)
qed

lemma socket_inet_aton_dotted: "length bs = 4 \<Longrightarrow> socket_inet_aton (dotted bs) = Inr bs"
  by (simp add: socket_inet_aton_plain dotted_plain inet_aton_dotted)

lemma Net_populate_quad:
  assumes "socket_inet_aton base_address = Inr [a, b, c, d]"
  shows "Net_populate orig0 mask0 base_address show_quad show_bin show_dec show_hex =
     Inr (Net orig0 mask0 None [a, b, c, d]
            (spec_formats [a, b, c, d] show_quad show_bin show_dec show_hex))"
proof -
  let ?bs = "[a, b, c, d]"
  have nt: "inet_ntoa ?bs = Inr (dotted ?bs)" by (simp add: inet_ntoa_dotted)
  have q: "join ''.'' (map (format_right 3) (split_str CHR ''.'' (dotted ?bs))) = spec_quad ?bs"
    by (simp add: split_dotted spec_quad_quad)
  have ds: "dec_sum ?bs [0, 1, 2, 3] = Inr (be_value ?bs)"
    by (simp only: dec_sum_quad be_value_quad)
  have pi: "py_int 10 (format_zero 10 10 (be_value ?bs)) = Some (be_value ?bs)"
    by (rule py_int_format_zero) (simp_all add: be_value_nonneg)
  have th: "those (map (py_int 10) (split_str CHR ''.'' (spec_quad ?bs))) =
      Some [uint a, uint b, uint c, uint d]"
    by (simp add: split_spec_quad py_int_format_right)
  have bn: "join '' '' (map (format_zero 8 2) [uint a, uint b, uint c, uint d]) = spec_binary ?bs"
    by (simp add: spec_binary_def)
  show ?thesis
    unfolding Net_populate_def assms
    by (simp only: nt q ds pi th bn Let_def spec_formats_def spec_decimal_def spec_hex_def
        sum.case option.case)
qed

lemma Net_populate_eq:
  "Net_populate orig0 mask0 base_address show_quad show_bin show_dec show_hex =
     (case socket_inet_aton base_address of
        Inl e \<Rightarrow> Inl e
      | Inr bs \<Rightarrow> Inr (Net orig0 mask0 None bs (spec_formats bs show_quad show_bin show_dec show_hex)))"
proof (cases "socket_inet_aton base_address")
  case (Inl e)
  then show ?thesis by (simp add: Net_populate_def)
next
  case (Inr bs)
  then have "length bs = 4" by (rule socket_inet_aton_Inr)
  then obtain a b c d where "bs = [a, b, c, d]" by (rule length4E)
  with Inr show ?thesis by (simp add: Net_populate_quad)
qed

lemma inet_aton_zero: "socket_inet_aton ''0.0.0.0'' = Inr [0, 0, 0, 0]"
proof -
  have "dotted [0, 0, 0, 0] = ''0.0.0.0''" by (simp add: dotted_quad to_base_zero)
  then show ?thesis using socket_inet_aton_dotted [of "[0, 0, 0, 0]"] by simp
qed

lemma and_bytes_quad:
  "and_bytes [a, b, c, d] [a', b', c', d'] = [a AND a', b AND b', c AND c', d AND d']"
  by (simp add: and_bytes_def)

lemma length_and_bytes: "length xs = 4 \<Longrightarrow> length ys = 4 \<Longrightarrow> length (and_bytes xs ys) = 4"
  by (simp add: and_bytes_def)

lemma and_raw_eq:
  assumes "length xs = 4" "length ys = 4"
  shows "and_raw xs ys = Inr (dotted (and_bytes xs ys))"
proof -
  from assms(1) obtain a b c d where xs: "xs = [a, b, c, d]" by (rule length4E)
  from assms(2) obtain a' b' c' d' where ys: "ys = [a', b', c', d']" by (rule length4E)
  have "and_loop xs ys [0, 1, 2, 3] [0, 0, 0, 0] = Inr (and_bytes xs ys)"
    unfolding xs ys and_bytes_quad by (rule and_loop_quad)
  then show ?thesis
    using assms by (simp add: and_raw_def inet_aton_zero inet_ntoa_dotted length_and_bytes)
qed

lemma Net_init_dotted:
  assumes "CHR ''/'' \<notin> set net" "CHR ''.'' \<in> set net"
  shows "Net_init net show_quad show_bin show_dec show_hex =
         Net_populate net None net show_quad show_bin show_dec show_hex"
  using assms by (subst Net_init.simps) simp

lemma Net_and_eq:
  assumes "length (raw self) = 4" "length (raw other) = 4"
  shows "Net_and self other =
     Inr (masked_net (raw self) (raw other) (shown (formats self Quad)) (shown (formats self Bin))
            (shown (formats self Dec)) (shown (formats self Hex)))"
proof -
  let ?bs = "and_bytes (raw self) (raw other)"
  have len: "length ?bs = 4" using assms by (rule length_and_bytes)
  have "Net_and self other =
      Net_init (dotted ?bs) (shown (formats self Quad)) (shown (formats self Bin))
            (shown (formats self Dec)) (shown (formats self Hex))"
    using assms by (simp add: Net_and.simps and_raw_eq)
  also have "\<dots> = Net_populate (dotted ?bs) None (dotted ?bs) (shown (formats self Quad))
            (shown (formats self Bin)) (shown (formats self Dec)) (shown (formats self Hex))"
    using len by (intro Net_init_dotted dotted_unslashed dotted_has_dot)
  finally show ?thesis
    using len by (simp add: Net_populate_eq socket_inet_aton_dotted masked_net_def)
qed

text \<open>What the no-slash branches hand to the address parser.\<close>

lemma Net_init_unslashed:
  assumes "CHR ''/'' \<notin> set net"
    and "Net_init net show_quad show_bin show_dec show_hex = Inr n"
  shows "\<exists>base_address. socket_inet_aton base_address = Inr (raw n) \<and>
           n = Net net None None (raw n) (spec_formats (raw n) show_quad show_bin show_dec show_hex)"
proof -
  have "\<exists>base_address. Net_populate net None base_address show_quad show_bin show_dec show_hex = Inr n"
    using assms by (subst (asm) Net_init.simps) (auto split: if_splits option.splits sum.splits)
  then obtain base_address
    where "Net_populate net None base_address show_quad show_bin show_dec show_hex = Inr n" ..
  then show ?thesis by (auto simp: Net_populate_eq split: sum.splits)
qed

lemma Net_init_unslashed_raw:
  assumes "CHR ''/'' \<notin> set net"
    and "Net_init net show_quad show_bin show_dec show_hex = Inr n"
  shows "length (raw n) = 4"
  using Net_init_unslashed [OF assms] socket_inet_aton_Inr(2) by blast

lemma split_str_slash:
  assumes "CHR ''/'' \<notin> set base_address" "CHR ''/'' \<notin> set netmask"
  shows "split_str CHR ''/'' (base_address @ CHR ''/'' # netmask) = [base_address, netmask]"
  using assms by (simp add: split_str_append split_str_dotless)

lemma count_list_slash:
  assumes "CHR ''/'' \<notin> set base_address" "CHR ''/'' \<notin> set netmask"
  shows "count_list (base_address @ CHR ''/'' # netmask) CHR ''/'' = 1"
  using assms by (simp add: count_list_zero)

lemma Net_init_slash:
  assumes "CHR ''/'' \<notin> set base_address" "CHR ''/'' \<notin> set netmask"
  shows "Net_init (base_address @ CHR ''/'' # netmask) show_quad show_bin show_dec show_hex =
     (case Net_init netmask show_quad show_bin show_dec show_hex of
        Inl e \<Rightarrow> Inl e
      | Inr m \<Rightarrow>
          (case socket_inet_aton base_address of
             Inl e \<Rightarrow> Inl e
           | Inr bs \<Rightarrow>
               Inr (Net (base_address @ CHR ''/'' # netmask) (Some m)
                      (Some (masked_net bs (raw m) show_quad show_bin show_dec show_hex)) bs
                      (spec_formats bs show_quad show_bin show_dec show_hex))))"
proof (cases "Net_init netmask show_quad show_bin show_dec show_hex")
  case (Inl e)
  then show ?thesis
    using assms by (subst Net_init.simps) (simp add: split_str_slash count_list_slash)
next
  case m: (Inr m)
  have lm: "length (raw m) = 4" using assms(2) m by (rule Net_init_unslashed_raw)
  show ?thesis
  proof (cases "socket_inet_aton base_address")
    case (Inl e)
    with m show ?thesis
      using assms
      by (subst Net_init.simps) (simp add: split_str_slash count_list_slash Net_populate_eq)
  next
    case (Inr bs)
    then have lb: "length bs = 4" by (rule socket_inet_aton_Inr)
    let ?self = "Net (base_address @ CHR ''/'' # netmask) (Some m) None bs
                   (spec_formats bs show_quad show_bin show_dec show_hex)"
    have "Net_and ?self m = Inr (masked_net bs (raw m) show_quad show_bin show_dec show_hex)"
      using lb lm by (simp add: Net_and_eq spec_formats_def)
    with m Inr show ?thesis
      using assms
      by (subst Net_init.simps) (simp add: split_str_slash count_list_slash Net_populate_eq)
  qed
qed

subsection \<open>Mask lengths and decimal tokens\<close>

lemma digits_value_append:
  "digits_value b (xs @ ys) = digits_value b xs * b ^ length ys + digits_value b ys"
  using foldl_digits_acc [of b "digits_value b xs" ys] by (simp add: digits_value_def)

lemma digits_value_ones: "digits_value 2 (replicate m CHR ''1'') = 2 ^ m - 1"
proof (induction m)
  case 0
  then show ?case by (simp add: digits_value_def)
next
  case (Suc m)
  have one: "digit_of CHR ''1'' = Some 1" by (simp add: digit_of_def)
  have "replicate (Suc m) CHR ''1'' = replicate m CHR ''1'' @ [CHR ''1'']"
    by (simp add: replicate_append_same)
  then have "digits_value 2 (replicate (Suc m) CHR ''1'') = (2 ^ m - 1) * 2 + 1"
    using Suc one by (simp only: digits_value_snoc option.sel)
  also have "\<dots> = 2 ^ Suc m - 1"
  proof -
    have "1 \<le> x \<Longrightarrow> (x - 1) * 2 + 1 = 2 * x - (1::nat)" for x by arith
    from this [of "2 ^ m"] show ?thesis by simp
  qed
  finally show ?case .
qed

lemma digits_value_bits:
  "digits_value 2 (replicate m CHR ''1'' @ replicate k CHR ''0'') = (2 ^ m - 1) * 2 ^ k"
proof -
  have "digits_value 2 (replicate k CHR ''0'') = 0"
    using digits_value_zeros [of 2 k "[]"] by (simp add: digits_value_def)
  then show ?thesis by (simp add: digits_value_append digits_value_ones)
qed

lemma mask_value:
  assumes "m \<le> 32"
  shows "(2 ^ m - 1) * 2 ^ (32 - m) = (2 ^ 32 - 2 ^ (32 - m) :: nat)"
proof -
  have "(2::nat) ^ m * 2 ^ (32 - m) = 2 ^ 32"
    using assms by (simp flip: power_add)
  then show ?thesis by (simp add: algebra_simps diff_mult_distrib)
qed

lemma py_int_bits:
  assumes "1 \<le> m" "m \<le> 32"
  shows "py_int 2 (replicate m CHR ''1'' @ replicate (32 - m) CHR ''0'')
         = Some (int (2 ^ 32 - 2 ^ (32 - m)))"
proof -
  let ?ds = "replicate m CHR ''1'' @ replicate (32 - m) CHR ''0''"
  have one: "valid_digit 2 CHR ''1''" and zero: "valid_digit 2 CHR ''0''"
    by (simp_all add: valid_digit_def digit_of_def)
  have "list_all (valid_digit 2) ?ds" using one zero by (auto simp: list_all_iff)
  moreover have "?ds \<noteq> []" using assms by auto
  ultimately have "py_int 2 ?ds = Some (int (digits_value 2 ?ds))" by (rule py_int_digits)
  then show ?thesis using assms by (simp only: digits_value_bits mask_value)
qed

lemma py_int_decimal:
  assumes "list_all isdigit ds" "ds \<noteq> []"
  shows "py_int 10 ds = Some (int (digits_value 10 ds))"
  using assms by (intro py_int_digits) (simp_all add: valid_digit_10 list_all_iff)

lemma bits2int_eq:
  assumes "list_all isdigit ds" "ds \<noteq> []" "1 \<le> digits_value 10 ds" "digits_value 10 ds \<le> 32"
  shows "bits2int ds = Inr (to_base 10 (2 ^ 32 - 2 ^ (32 - digits_value 10 ds)))"
proof -
  let ?m = "digits_value 10 ds"
  have "py_int 2 (replicate ?m CHR ''1'' @ replicate (32 - ?m) CHR ''0'')
         = Some (int (2 ^ 32 - 2 ^ (32 - ?m)))"
    using assms(3,4) by (rule py_int_bits)
  moreover have "nat (32 - int ?m) = 32 - ?m" by simp
  ultimately show ?thesis
    using assms by (simp add: bits2int_def py_int_decimal py_str_def del: of_nat_diff of_nat_power)
qed

lemma bits2int_zero:
  assumes "list_all isdigit ds" "ds \<noteq> []" "digits_value 10 ds = 0"
  shows "bits2int ds = Inl ValueError"
  using assms by (simp add: bits2int_def py_int_decimal)

lemma inet_aton_to_base:
  assumes "n < 2 ^ 32"
  shows "inet_aton (to_base 10 n) = Some (be_bytes 4 n)"
  using assms inet_aton_loop_last [of "[]" n] by (simp add: inet_aton_def)


lemma uint_byte_of_nat: "uint (of_nat k :: byte) = int (k mod 256)"
  by (simp add: uint_nat unat_of_nat)

lemma be_value_Cons: "be_value (x # xs) = uint x * 256 ^ length xs + be_value xs"
proof -
  have "foldl (\<lambda>v b. 256 * v + uint (b :: byte)) v xs
        = v * 256 ^ length xs + foldl (\<lambda>v b. 256 * v + uint b) 0 xs" for v
  proof (induction xs rule: rev_induct)
    case Nil
    then show ?case by simp
  next
    case (snoc y ys)
    then show ?case by (simp add: algebra_simps)
  qed
  from this [of "uint x"] show ?thesis by (simp add: be_value_def)
qed

lemma be_value_be_bytes_mod: "be_value (be_bytes k n) = int (n mod 256 ^ k)"
proof (induction k)
  case 0
  then show ?case by (simp add: be_value_def)
next
  case (Suc k)
  have "n mod (256 ^ k * 256) = 256 ^ k * (n div 256 ^ k mod 256) + n mod 256 ^ k"
    by (rule mod_mult2_eq)
  then have "int (n mod 256 ^ Suc k) = int (n div 256 ^ k mod 256) * 256 ^ k + int (n mod 256 ^ k)"
    by (simp add: mult.commute)
  with Suc show ?case
    by (simp add: be_value_Cons length_be_bytes uint_byte_of_nat del: of_nat_mod of_nat_power)
qed

lemma be_value_be_bytes: "n < 2 ^ 32 \<Longrightarrow> be_value (be_bytes 4 n) = int n"
  by (simp add: be_value_be_bytes_mod)

subsection \<open>The dispatch of \<^verbatim>\<open>__init__\<close>\<close>

lemma Net_init_normalized:
  assumes "CHR ''/'' \<notin> set net"
  shows "Net_init net show_quad show_bin show_dec show_hex =
     (case normalized_base net of
        Inl e \<Rightarrow> Inl e
      | Inr base_address \<Rightarrow>
          Net_populate net None base_address show_quad show_bin show_dec show_hex)"
  using assms
  by (subst Net_init.simps) (auto simp: normalized_base_def split: option.splits sum.splits)

lemma isdigit_plain: "isdigit c \<Longrightarrow> c \<noteq> CHR ''/'' \<and> c \<noteq> CHR ''.'' \<and> c \<noteq> CHR 0x00"
  by (auto simp: isdigit_def)

lemma digits_plain:
  assumes "list_all isdigit ds"
  shows "CHR ''/'' \<notin> set ds" "CHR ''.'' \<notin> set ds" "CHR 0x00 \<notin> set ds"
  using assms isdigit_plain by (auto simp: list_all_iff)

lemma digits_ex: "list_all isdigit ds \<Longrightarrow> ds \<noteq> [] \<Longrightarrow> list_ex isdigit ds"
  by (cases ds) auto

lemma normalized_base_digits:
  assumes "list_all isdigit ds" "ds \<noteq> []" "length ds \<le> 10"
  shows "normalized_base ds =
     (if digits_value 10 ds = 0 then Inl ValueError
      else if digits_value 10 ds \<le> 32
        then Inr (to_base 10 (2 ^ 32 - 2 ^ (32 - digits_value 10 ds)))
      else Inr ds)"
proof -
  have "normalized_base ds = (if int (digits_value 10 ds) \<le> 32 then bits2int ds else Inr ds)"
    using assms by (simp add: normalized_base_def digits_plain digits_ex py_int_decimal)
  then show ?thesis
    using assms(1,2) by (simp add: bits2int_eq bits2int_zero)
qed

lemma to_base_10_digits: "list_all isdigit (to_base 10 n)"
  using to_base_valid [of 10 n] by (simp add: valid_digit_10 list_all_iff)

lemma Net_init_digits:
  assumes "list_all isdigit ds" "ds \<noteq> []" "length ds \<le> 10"
  shows "Net_init ds show_quad show_bin show_dec show_hex =
     (if digits_value 10 ds = 0 then Inl ValueError
      else if digits_value 10 ds \<le> 32 then
        Inr (Net ds None None (be_bytes 4 (2 ^ 32 - 2 ^ (32 - digits_value 10 ds)))
               (spec_formats (be_bytes 4 (2 ^ 32 - 2 ^ (32 - digits_value 10 ds)))
                  show_quad show_bin show_dec show_hex))
      else
        (case inet_aton ds of
           None \<Rightarrow> Inl OSError
         | Some bs \<Rightarrow>
             Inr (Net ds None None bs (spec_formats bs show_quad show_bin show_dec show_hex))))"
  using assms
  by (simp add: Net_init_normalized digits_plain normalized_base_digits Net_populate_eq
      inet_aton_to_base socket_inet_aton_plain to_base_10_digits split: option.splits)

text \<open>Every text with one slash splits at it.\<close>

lemma one_slash_split:
  assumes "c \<in> set s" "count_list s c \<le> 1"
  obtains p q where "s = p @ c # q" "c \<notin> set p" "c \<notin> set q"
proof -
  from assms(1) obtain p q where s: "s = p @ c # q" and p: "c \<notin> set p"
    by (meson split_list_first)
  have "count_list s c = count_list p c + 1 + count_list q c" by (simp add: s)
  with assms(2) have "count_list q c = 0" by simp
  then have "c \<notin> set q" by (simp add: count_list_0_iff)
  with s p that show ?thesis by blast
qed

lemma Net_init_many_slashes:
  "1 < count_list net CHR ''/'' \<Longrightarrow> Net_init net show_quad show_bin show_dec show_hex = Inl ValueError"
proof -
  assume a: "1 < count_list net CHR ''/''"
  then have "CHR ''/'' \<in> set net" using count_list_zero [of "CHR ''/''" net] by fastforce
  with a show ?thesis by (subst Net_init.simps) simp
qed

text \<open>Every value the constructor returns.\<close>

lemma Net_init_cases:
  assumes "Net_init net show_quad show_bin show_dec show_hex = Inr n"
  obtains (plain) "CHR ''/'' \<notin> set net"
      "orig n = net" "mask_net n = None" "masked n = None" "length (raw n) = 4"
      "formats n = spec_formats (raw n) show_quad show_bin show_dec show_hex"
  | (masked) base_address netmask m where
      "net = base_address @ CHR ''/'' # netmask"
      "CHR ''/'' \<notin> set base_address" "CHR ''/'' \<notin> set netmask"
      "Net_init netmask show_quad show_bin show_dec show_hex = Inr m"
      "orig m = netmask" "mask_net m = None" "masked m = None" "length (raw m) = 4"
      "formats m = spec_formats (raw m) show_quad show_bin show_dec show_hex"
      "inet_aton base_address = Some (raw n)"
      "orig n = net" "mask_net n = Some m"
      "masked n = Some (masked_net (raw n) (raw m) show_quad show_bin show_dec show_hex)"
      "length (raw n) = 4"
      "formats n = spec_formats (raw n) show_quad show_bin show_dec show_hex"
proof (cases "CHR ''/'' \<in> set net")
  case False
  from Net_init_unslashed [of net show_quad show_bin show_dec show_hex n] False assms
  have eq: "n = Net net None None (raw n) (spec_formats (raw n) show_quad show_bin show_dec show_hex)"
    by blast
  have "orig n = net" by (subst eq) simp
  moreover have "mask_net n = None" by (subst eq) simp
  moreover have "masked n = None" by (subst eq) simp
  moreover have "formats n = spec_formats (raw n) show_quad show_bin show_dec show_hex"
    by (subst eq) simp
  moreover have "length (raw n) = 4" using False assms by (rule Net_init_unslashed_raw)
  ultimately show ?thesis using plain False by blast
next
  case True
  have "\<not> 1 < count_list net CHR ''/''" using assms Net_init_many_slashes by fastforce
  then have "count_list net CHR ''/'' \<le> 1" by simp
  with True obtain p q where s: "net = p @ CHR ''/'' # q" and p: "CHR ''/'' \<notin> set p"
    and q: "CHR ''/'' \<notin> set q" by (rule one_slash_split)
  from assms obtain m bs where m: "Net_init q show_quad show_bin show_dec show_hex = Inr m"
    and sbs: "socket_inet_aton p = Inr bs"
    and n: "n = Net net (Some m) (Some (masked_net bs (raw m) show_quad show_bin show_dec show_hex))
                 bs (spec_formats bs show_quad show_bin show_dec show_hex)"
    unfolding s Net_init_slash [OF p q] by (auto split: sum.splits)
  from sbs have bs: "inet_aton p = Some bs" by (rule socket_inet_aton_Inr)
  from n have r: "raw n = bs" by simp
  have lm: "length (raw m) = 4" using q m by (rule Net_init_unslashed_raw)
  from Net_init_unslashed [OF q m]
  have eq: "m = Net q None None (raw m) (spec_formats (raw m) show_quad show_bin show_dec show_hex)"
    by blast
  have m1: "orig m = q" by (subst eq) simp
  have m2: "mask_net m = None" by (subst eq) simp
  have m3: "masked m = None" by (subst eq) simp
  have m4: "formats m = spec_formats (raw m) show_quad show_bin show_dec show_hex"
    by (subst eq) simp
  have ln: "length (raw n) = 4" using bs r inet_aton_length by simp
  have n1: "inet_aton p = Some (raw n)" using bs r by simp
  have n2: "orig n = net" using n by simp
  have n3: "mask_net n = Some m" using n by simp
  have n4: "masked n = Some (masked_net (raw n) (raw m) show_quad show_bin show_dec show_hex)"
    using n by simp
  have n5: "formats n = spec_formats (raw n) show_quad show_bin show_dec show_hex"
    using n by simp
  show ?thesis by (rule masked [OF s p q m m1 m2 m3 lm m4 n1 n2 n3 n4 ln n5])
qed

subsection \<open>Bytes and flags of the results\<close>

lemma be_bytes_4:
  "be_bytes 4 n = [of_nat (n div 16777216), of_nat (n div 65536), of_nat (n div 256), of_nat n]"
proof -
  have four: "(4::nat) = Suc (Suc (Suc (Suc 0)))" by simp
  show ?thesis unfolding four by simp
qed

lemma length4_nth: "length xs = 4 \<Longrightarrow> xs = [xs ! 0, xs ! 1, xs ! 2, xs ! 3]"
  by (erule length4E) simp

lemma and_bytes_nth:
  "length xs = 4 \<Longrightarrow> length ys = 4 \<Longrightarrow> i < 4 \<Longrightarrow> and_bytes xs ys ! i = xs ! i AND ys ! i"
  by (simp add: and_bytes_def)

lemma and_bytes_commute: "and_bytes xs ys = and_bytes ys xs"
proof (induction xs arbitrary: ys)
  case Nil
  then show ?case by (simp add: and_bytes_def)
next
  case (Cons x xs)
  then show ?case by (cases ys) (simp_all add: and_bytes_def and.commute)
qed

lemma and_bytes_same: "and_bytes xs xs = xs"
  by (induction xs) (simp_all add: and_bytes_def)

lemma raw_masked_net [simp]: "raw (masked_net xs ys q b d h) = and_bytes xs ys"
  by (simp add: masked_net_def)

lemma shown_spec_formats:
  "shown (spec_formats bs q b d h k) = (case k of Quad \<Rightarrow> q | Bin \<Rightarrow> b | Dec \<Rightarrow> d | Hex \<Rightarrow> h)"
  by (cases k) (simp_all add: spec_formats_def)

lemma visible_formats_spec:
  "formats n = spec_formats bs q b d h \<Longrightarrow>
   visible_formats n = (if q then {Quad} else {}) \<union> (if b then {Bin} else {}) \<union>
                       (if d then {Dec} else {}) \<union> (if h then {Hex} else {})"
  by (auto simp: visible_formats_def all_formats_def shown_spec_formats)

lemma visible_formats_masked_net:
  "visible_formats (masked_net xs ys (shown (formats n Quad)) (shown (formats n Bin))
      (shown (formats n Dec)) (shown (formats n Hex))) = visible_formats n"
  by (auto simp: visible_formats_def all_formats_def masked_net_def shown_spec_formats)

lemma Net_init_raw_length:
  assumes "Net_init net show_quad show_bin show_dec show_hex = Inr n"
  shows "length (raw n) = 4"
  using assms by (rule Net_init_cases)

lemma Net_init_dotted_text:
  assumes "length bs = 4"
  shows "Net_init (dotted bs) show_quad show_bin show_dec show_hex =
         Inr (Net (dotted bs) None None bs (spec_formats bs show_quad show_bin show_dec show_hex))"
  using assms
  by (simp add: Net_init_dotted dotted_unslashed dotted_has_dot Net_populate_eq
      socket_inet_aton_dotted)

subsection \<open>Evaluation at concrete texts\<close>

lemma replicate_numeral: "replicate (numeral k) x = x # replicate (numeral k - 1) x"
  by (simp add: numeral_eq_Suc)

lemma to_base_numeral:
  "to_base b (numeral k) =
     (if b < 2 \<or> numeral k < b then [digit_char (numeral k)]
      else to_base b (numeral k div b) @ [digit_char (numeral k mod b)])"
  by (rule to_base.simps)

lemma to_base_one: "to_base b (Suc 0) = ''1''" "to_base b 1 = ''1''"
  by (auto simp: to_base.simps [of b "Suc 0"] digit_char_def)

lemmas numeral_text = to_base_numeral to_base_zero to_base_one digit_char_def dotted_def py_str_def

lemmas render_text = spec_line_def spec_quad_def spec_binary_def spec_decimal_def spec_hex_def
  be_value_def format_right_def format_zero_def zfill_def py_str_def
  to_base_numeral to_base_zero to_base_one digit_char_def replicate_numeral

lemma Net_init_1_2_3_4:
  "Net_init ''1.2.3.4'' q b d h =
     Inr (Net ''1.2.3.4'' None None [1, 2, 3, 4] (spec_formats [1, 2, 3, 4] q b d h))"
  using Net_init_dotted_text [of "[1, 2, 3, 4]" q b d h] by (simp add: numeral_text)

lemma Net_init_255_255_255_0:
  "Net_init ''255.255.255.0'' q b d h =
     Inr (Net ''255.255.255.0'' None None [255, 255, 255, 0] (spec_formats [255, 255, 255, 0] q b d h))"
  using Net_init_dotted_text [of "[255, 255, 255, 0]" q b d h] by (simp add: numeral_text)

lemmas digit_text = isdigit_def digits_value_def digit_of_def

lemma be_bytes_mask_24: "be_bytes 4 4294967040 = [255, 255, 255, 0]"
  by (simp add: be_bytes_4)

lemma Net_init_24:
  "Net_init ''24'' q b d h =
     Inr (Net ''24'' None None [255, 255, 255, 0] (spec_formats [255, 255, 255, 0] q b d h))"
proof -
  have v: "digits_value 10 ''24'' = 24" by (simp add: digit_text)
  have "list_all isdigit ''24''" by (simp add: digit_text)
  then show ?thesis
    using Net_init_digits [of "''24''" q b d h] by (simp add: v be_bytes_mask_24)
qed

lemma inet_aton_1_2_3_4: "inet_aton ''1.2.3.4'' = Some [1, 2, 3, 4]"
  using inet_aton_dotted [of "[1, 2, 3, 4]"] by (simp add: numeral_text)

lemma Net_init_1_2_3_4_24:
  "Net_init ''1.2.3.4/24'' q b d h =
     Inr (Net ''1.2.3.4/24''
            (Some (Net ''24'' None None [255, 255, 255, 0] (spec_formats [255, 255, 255, 0] q b d h)))
            (Some (masked_net [1, 2, 3, 4] [255, 255, 255, 0] q b d h))
            [1, 2, 3, 4] (spec_formats [1, 2, 3, 4] q b d h))"
  using Net_init_slash [of "''1.2.3.4''" "''24''" q b d h]
  by (simp add: Net_init_24 inet_aton_1_2_3_4 socket_inet_aton_def)

subsection \<open>\<^verbatim>\<open>__str__\<close>\<close>

lemma Net_str_plain:
  assumes "mask_net n = None" "masked n = None" "formats n = spec_formats bs q b d h"
  shows "Net_str n = spec_line bs q b d h"
proof (cases n)
  case (Net orig0 mask0 masked0 raw0 formats0)
  with assms have "mask0 = None" "masked0 = None" "formats0 = spec_formats bs q b d h" by simp_all
  then show ?thesis
    unfolding Net
    by (cases q; cases b; cases d; cases h)
       (simp_all add: all_formats_def spec_formats_def spec_line_def)
qed

lemma Net_str_masked:
  assumes "mask_net n = Some m" "masked n = Some r" "formats n = spec_formats bs q b d h"
  shows "Net_str n = ''   '' @ spec_line bs q b d h @ [CHR 0x0A] @ '' & '' @ Net_str m
                      @ [CHR 0x0A] @ '' = '' @ Net_str r"
proof (cases n)
  case (Net orig0 mask0 masked0 raw0 formats0)
  with assms have "mask0 = Some m" "masked0 = Some r" "formats0 = spec_formats bs q b d h"
    by simp_all
  then show ?thesis
    unfolding Net
    by (cases q; cases b; cases d; cases h)
       (simp_all add: all_formats_def spec_formats_def spec_line_def)
qed

lemma Net_str_masked_net:
  "Net_str (masked_net xs ys q b d h) = spec_line (and_bytes xs ys) q b d h"
  by (rule Net_str_plain) (simp_all add: masked_net_def)

lemma spec_line_1_2_3_4:
  "spec_line [1, 2, 3, 4] True True True True =
     ''  1.  2.  3.  4  <=>  00000001 00000010 00000011 00000100  <=>  0016909060  <=>  01020304''"
  by (simp add: render_text)

lemma spec_line_mask_24:
  "spec_line [255, 255, 255, 0] True True True True =
     ''255.255.255.  0  <=>  11111111 11111111 11111111 00000000  <=>  4294967040  <=>  ffffff00''"
  by (simp add: render_text)

lemma spec_line_1_2_3_0:
  "spec_line [1, 2, 3, 0] True True True True =
     ''  1.  2.  3.  0  <=>  00000001 00000010 00000011 00000000  <=>  0016909056  <=>  01020300''"
  by (simp add: render_text)

lemma spec_line_dec_hex:
  "spec_line [1, 2, 3, 4] False False True True = ''0016909060  <=>  01020304''"
  by (simp add: render_text)

subsection \<open>Numbers in a fixed number of digits\<close>

lemma zfill_snoc: "zfill (Suc w) (s @ [c]) = zfill w s @ [c]"
  by (simp add: zfill_def)

lemma fixed_digits_small:
  "0 < b \<Longrightarrow> v < b \<Longrightarrow> fixed_digits b (Suc k) v = replicate k CHR ''0'' @ [digit_char v]"
proof (induction k)
  case 0
  then show ?case by simp
next
  case (Suc k)
  have "fixed_digits b (Suc k) 0 = replicate k CHR ''0'' @ [digit_char 0]"
    using Suc.prems(1) Suc.IH [OF Suc.prems(1)] Suc.prems(2)
  proof (induction k)
    case 0
    then show ?case by simp
  next
    case (Suc j)
    then show ?case by (simp add: replicate_append_same)
  qed
  then have "fixed_digits b (Suc k) 0 = replicate (Suc k) CHR ''0''"
    by (simp add: digit_char_def replicate_append_same)
  with Suc.prems show ?case by simp
qed

lemma zfill_to_base_fixed:
  assumes "2 \<le> b"
  shows "v < b ^ Suc k \<Longrightarrow> zfill (Suc k) (to_base b v) = fixed_digits b (Suc k) v"
proof (induction k arbitrary: v)
  case 0
  with assms show ?case by (simp add: to_base.simps [of b v] zfill_def)
next
  case (Suc k)
  show ?case
  proof (cases "v < b")
    case True
    with assms have "fixed_digits b (Suc (Suc k)) v = replicate (Suc k) CHR ''0'' @ [digit_char v]"
      by (intro fixed_digits_small) simp_all
    with True assms show ?thesis by (simp add: to_base.simps [of b v] zfill_def)
  next
    case False
    have "v div b < b ^ Suc k"
      using Suc.prems assms by (simp add: less_mult_imp_div_less mult.commute)
    from Suc.IH [OF this] False assms show ?thesis
      by (simp add: to_base.simps [of b v] zfill_snoc del: fixed_digits.simps
          add: fixed_digits.simps(2) [of b "Suc k" v])
  qed
qed

lemma format_zero_fixed:
  assumes "2 \<le> b" "v < b ^ Suc k"
  shows "format_zero (Suc k) b (int v) = fixed_digits b (Suc k) v"
  using zfill_to_base_fixed [OF assms] by (simp add: format_zero_def)

lemma fixed_digits_numeral:
  "fixed_digits b (numeral w) v = fixed_digits b (numeral w - 1) (v div b) @ [digit_char (v mod b)]"
  by (simp add: numeral_eq_Suc)

lemma uint_of_nat_byte: "a < 256 \<Longrightarrow> uint (of_nat a :: byte) = int a"
  by (simp add: uint_byte_of_nat)

lemma length_to_base:
  assumes "2 \<le> b"
  shows "n < b ^ Suc k \<Longrightarrow> length (to_base b n) \<le> Suc k"
proof (induction k arbitrary: n)
  case 0
  then show ?case by (simp add: to_base.simps [of b n])
next
  case (Suc k)
  show ?case
  proof (cases "n < b")
    case True
    then show ?thesis by (simp add: to_base.simps [of b n])
  next
    case False
    have "n div b < b ^ Suc k"
      using Suc.prems assms by (simp add: less_mult_imp_div_less mult.commute)
    from Suc.IH [OF this] False assms show ?thesis by (simp add: to_base.simps [of b n])
  qed
qed

lemma Net_init_mask_length:
  assumes "1 \<le> N" "N \<le> 32"
  shows "Net_init (to_base 10 N) q b d h =
     Inr (Net (to_base 10 N) None None (be_bytes 4 (2 ^ 32 - 2 ^ (32 - N)))
            (spec_formats (be_bytes 4 (2 ^ 32 - 2 ^ (32 - N))) q b d h))"
proof -
  have "N < 10 ^ Suc 9" using assms by simp
  then have "length (to_base 10 N) \<le> Suc 9" by (intro length_to_base) simp_all
  then have len: "length (to_base 10 N) \<le> 10" by simp
  have v: "digits_value 10 (to_base 10 N) = N" by (rule digits_value_to_base) simp_all
  show ?thesis
    using Net_init_digits [OF to_base_10_digits to_base_nonempty len, of q b d h] assms
    by (simp add: v)
qed

subsection \<open>The address parser at concrete texts\<close>

lemmas parse_text = inet_aton_def inet_aton_loop.simps strtoul_def valid_digit_def digit_of_def
  isdigit_def isxdigit_def inet_aton_end_def isspace_def be_bytes_4

lemma inet_aton_ff: "inet_aton ''ff'' = None" by (simp add: parse_text)
lemma inet_aton_0xff: "inet_aton ''0xff'' = Some [0, 0, 0, 255]" by (simp add: parse_text)
lemma inet_aton_24: "inet_aton ''24'' = Some [0, 0, 0, 24]" by (simp add: parse_text)


lemma normalized_base_ff: "normalized_base ''ff'' = Inr ''0xff''"
  by (simp add: normalized_base_def isdigit_def isxdigit_def)

lemma Net_init_ff:
  "Net_init ''ff'' q b d h =
     Inr (Net ''ff'' None None [0, 0, 0, 255] (spec_formats [0, 0, 0, 255] q b d h))"
  by (simp add: Net_init_normalized normalized_base_ff Net_populate_eq inet_aton_0xff
      socket_inet_aton_def)

lemma be_bytes_mask_8: "be_bytes 4 4278190080 = [255, 0, 0, 0]"
  by (simp add: be_bytes_4)

lemma Net_init_8:
  "Net_init ''8'' q b d h =
     Inr (Net ''8'' None None [255, 0, 0, 0] (spec_formats [255, 0, 0, 0] q b d h))"
proof -
  have v: "digits_value 10 ''8'' = 8" by (simp add: digit_text)
  have "list_all isdigit ''8''" by (simp add: digit_text)
  then show ?thesis
    using Net_init_digits [of "''8''" q b d h] by (simp add: v be_bytes_mask_8)
qed





lemma Net_init_24_8:
  "Net_init ''24/8'' q b d h =
     Inr (Net ''24/8''
            (Some (Net ''8'' None None [255, 0, 0, 0] (spec_formats [255, 0, 0, 0] q b d h)))
            (Some (masked_net [0, 0, 0, 24] [255, 0, 0, 0] q b d h))
            [0, 0, 0, 24] (spec_formats [0, 0, 0, 24] q b d h))"
  using Net_init_slash [of "''24''" "''8''" q b d h]
  by (simp add: Net_init_8 inet_aton_24 socket_inet_aton_def)

lemma Net_init_ff_8: "Net_init ''ff/8'' q b d h = Inl OSError"
  using Net_init_slash [of "''ff''" "''8''" q b d h]
  by (simp add: Net_init_8 inet_aton_ff socket_inet_aton_def)

section \<open>The claims\<close>

subsection \<open>C1\<close>

text \<open>
  C1, as the code has it. A text with exactly one slash is \<open>base @ ''/'' @ maskSpec\<close> with no
  slash in either part. The constructor builds the mask from \<open>maskSpec\<close>, and an error
  there is the result; then it hands \<open>base\<close> unchanged to \<^verbatim>\<open>socket.inet_aton\<close>, with none
  of the dispatch of a text without a slash (no mask-length expansion, no bare
  hexadecimal): an error there is the result, an accepted base gives the four bytes, the
  mask and the masked result.
\<close>

theorem slash_base_unnormalized:
  assumes "CHR ''/'' \<notin> set base" and "CHR ''/'' \<notin> set maskSpec"
  shows "count_list (base @ ''/'' @ maskSpec) CHR ''/'' = 1 \<and>
     Net_init (base @ ''/'' @ maskSpec) q b d h =
       (case Net_init maskSpec q b d h of
          Inl e \<Rightarrow> Inl e
        | Inr m \<Rightarrow>
            (case socket_inet_aton base of
               Inl e \<Rightarrow> Inl e
             | Inr bs \<Rightarrow>
                 Inr (Net (base @ ''/'' @ maskSpec) (Some m)
                        (Some (masked_net bs (raw m) q b d h)) bs
                        (spec_formats bs q b d h))))"
  using assms Net_init_slash [OF assms, of q b d h]
  by (simp add: count_list_zero split: sum.splits)

theorem slash_base_unnormalized_witness:
  "CHR ''/'' \<notin> set ''1.2.3.4'' \<and> CHR ''/'' \<notin> set ''24'' \<and>
   count_list ''1.2.3.4/24'' CHR ''/'' = 1 \<and>
   socket_inet_aton ''1.2.3.4'' = Inr [1, 2, 3, 4] \<and>
   Net_init ''1.2.3.4/24'' True True True True =
     Inr (Net ''1.2.3.4/24''
            (Some (Net ''24'' None None [255, 255, 255, 0]
                     (spec_formats [255, 255, 255, 0] True True True True)))
            (Some (masked_net [1, 2, 3, 4] [255, 255, 255, 0] True True True True))
            [1, 2, 3, 4] (spec_formats [1, 2, 3, 4] True True True True))"
  using slash_base_unnormalized [of "''1.2.3.4''" "''24''" True True True True]
  by (simp add: Net_init_24 inet_aton_1_2_3_4 socket_inet_aton_def)

text \<open>
  The claim C1 as stated fails: the base \<^verbatim>\<open>24\<close> of \<^verbatim>\<open>24/8\<close> is the address 0.0.0.24, where the
  text \<^verbatim>\<open>24\<close> alone is expanded to 255.255.255.0, and \<^verbatim>\<open>ff/8\<close> raises \<^verbatim>\<open>OSError\<close>, where
  the text \<^verbatim>\<open>ff\<close> alone is the address 0.0.0.255.
\<close>

theorem slash_base_counterexample:
  "(\<exists>n. Net_init ''24/8'' True True True True = Inr n \<and> raw n = [0, 0, 0, 24]) \<and>
   (\<exists>n. Net_init ''24'' True True True True = Inr n \<and> raw n = [255, 255, 255, 0]) \<and>
   Net_init ''ff/8'' True True True True = Inl OSError \<and>
   (\<exists>n. Net_init ''ff'' True True True True = Inr n \<and> raw n = [0, 0, 0, 255])"
  by (simp add: Net_init_24_8 Net_init_24 Net_init_ff_8 Net_init_ff)

subsection \<open>C2\<close>




subsection \<open>C3\<close>

text \<open>
  C3. For two values that the constructor returned, \<^verbatim>\<open>a & b\<close> returns a value: its packed
  address has four bytes, each the bitwise AND of the bytes of \<^verbatim>\<open>a\<close> and \<^verbatim>\<open>b\<close> at that
  position, and its visible formats are those of \<^verbatim>\<open>a\<close>.
\<close>

theorem Net_and_bytewise:
  assumes "Net_init net_a qa ba da ha = Inr a" and "Net_init net_b qb bb db hb = Inr b"
  shows "\<exists>r. Net_and a b = Inr r \<and> length (raw r) = 4 \<and>
             (\<forall>i<4. raw r ! i = raw a ! i AND raw b ! i) \<and>
             visible_formats r = visible_formats a"
proof -
  have la: "length (raw a) = 4" using assms(1) by (rule Net_init_raw_length)
  have lb: "length (raw b) = 4" using assms(2) by (rule Net_init_raw_length)
  let ?r = "masked_net (raw a) (raw b) (shown (formats a Quad)) (shown (formats a Bin))
              (shown (formats a Dec)) (shown (formats a Hex))"
  have "Net_and a b = Inr ?r" using la lb by (rule Net_and_eq)
  moreover have "length (raw ?r) = 4" using la lb by (simp add: length_and_bytes)
  moreover have "\<forall>i<4. raw ?r ! i = raw a ! i AND raw b ! i"
    using la lb by (simp add: and_bytes_nth)
  moreover have "visible_formats ?r = visible_formats a" by (rule visible_formats_masked_net)
  ultimately show ?thesis by blast
qed

theorem Net_and_bytewise_witness:
  "Net_init ''1.2.3.4'' True True False True =
     Inr (Net ''1.2.3.4'' None None [1, 2, 3, 4] (spec_formats [1, 2, 3, 4] True True False True)) \<and>
   Net_init ''255.255.255.0'' True True True True =
     Inr (Net ''255.255.255.0'' None None [255, 255, 255, 0]
            (spec_formats [255, 255, 255, 0] True True True True)) \<and>
   (\<exists>r. Net_and (Net ''1.2.3.4'' None None [1, 2, 3, 4] (spec_formats [1, 2, 3, 4] True True False True))
               (Net ''255.255.255.0'' None None [255, 255, 255, 0]
                  (spec_formats [255, 255, 255, 0] True True True True)) = Inr r \<and>
        raw r = [1, 2, 3, 0] \<and> visible_formats r = {Quad, Bin, Hex})"
proof -
  let ?a = "Net ''1.2.3.4'' None None [1, 2, 3, 4] (spec_formats [1, 2, 3, 4] True True False True)"
  let ?b = "Net ''255.255.255.0'' None None [255, 255, 255, 0]
              (spec_formats [255, 255, 255, 0] True True True True)"
  have a: "Net_init ''1.2.3.4'' True True False True = Inr ?a" by (rule Net_init_1_2_3_4)
  have b: "Net_init ''255.255.255.0'' True True True True = Inr ?b" by (rule Net_init_255_255_255_0)
  from Net_and_bytewise [OF a b] obtain r where r: "Net_and ?a ?b = Inr r"
    and len: "length (raw r) = 4" and nth: "\<forall>i<4. raw r ! i = raw ?a ! i AND raw ?b ! i"
    and vis: "visible_formats r = visible_formats ?a" by blast
  have "raw r = [raw r ! 0, raw r ! 1, raw r ! 2, raw r ! 3]" using len by (rule length4_nth)
  also have "\<dots> = [1, 2, 3, 0]" using nth by simp
  finally have "raw r = [1, 2, 3, 0]" .
  moreover have "visible_formats ?a = {Quad, Bin, Hex}"
    by (auto simp: visible_formats_def all_formats_def shown_spec_formats)
  ultimately have "Net_and ?a ?b = Inr r \<and> raw r = [1, 2, 3, 0] \<and>
      visible_formats r = {Quad, Bin, Hex}" using r vis by simp
  then have "\<exists>r. Net_and ?a ?b = Inr r \<and> raw r = [1, 2, 3, 0] \<and>
      visible_formats r = {Quad, Bin, Hex}" ..
  with a b show ?thesis by (intro conjI)
qed

subsection \<open>C4\<close>

text \<open>
  C4. For a text \<open>X\<close> without a slash that \<^verbatim>\<open>socket.inet_aton\<close> accepts and a mask length
  \<open>N\<close> from 1 to 32, constructing \<^verbatim>\<open>X/N\<close> returns a value with the bytes of \<open>X\<close>, a mask
  whose big-endian value is \<open>2^32 - 2^(32-N)\<close>, and a masked result of four bytes, each
  the AND of the bytes of the value and of the mask at that position.
\<close>

theorem cidr_mask_value:
  assumes "CHR ''/'' \<notin> set X" and "socket_inet_aton X = Inr xs" and "1 \<le> N" and "N \<le> 32"
  shows "\<exists>n m r. Net_init (X @ ''/'' @ py_str (int N)) q b d h = Inr n \<and> raw n = xs \<and>
           mask_net n = Some m \<and> be_value (raw m) = 2 ^ 32 - 2 ^ (32 - N) \<and>
           masked n = Some r \<and> length (raw r) = 4 \<and>
           (\<forall>i<4. raw r ! i = raw n ! i AND raw m ! i)"
proof -
  let ?ds = "to_base 10 N"
  let ?V = "2 ^ 32 - 2 ^ (32 - N) :: nat"
  let ?m = "Net ?ds None None (be_bytes 4 ?V) (spec_formats (be_bytes 4 ?V) q b d h)"
  let ?r = "masked_net xs (be_bytes 4 ?V) q b d h"
  let ?n = "Net (X @ CHR ''/'' # ?ds) (Some ?m) (Some ?r) xs (spec_formats xs q b d h)"
  have ds: "py_str (int N) = ?ds" by (simp add: py_str_def)
  have m: "Net_init ?ds q b d h = Inr ?m" using assms(3,4) by (rule Net_init_mask_length)
  have "CHR ''/'' \<notin> set ?ds" using to_base_10_digits by (rule digits_plain)
  from Net_init_slash [OF assms(1) this, of q b d h]
  have n: "Net_init (X @ CHR ''/'' # ?ds) q b d h = Inr ?n"
    by (simp add: m assms(2))
  have lx: "length xs = 4" using assms(2) by (rule socket_inet_aton_Inr)
  have "be_value (be_bytes 4 ?V) = int ?V" by (rule be_value_be_bytes) simp
  also have "\<dots> = int (2 ^ 32) - int (2 ^ (32 - N))"
    by (rule of_nat_diff) (rule power_increasing, simp_all)
  also have "\<dots> = 2 ^ 32 - 2 ^ (32 - N)" by simp
  finally have val: "be_value (raw ?m) = 2 ^ 32 - 2 ^ (32 - N)" by simp
  have lr: "length (raw ?r) = 4" using lx by (simp add: length_and_bytes length_be_bytes)
  have nth: "\<forall>i<4. raw ?r ! i = raw ?n ! i AND raw ?m ! i"
    using lx by (simp add: and_bytes_nth length_be_bytes)
  have "Net_init (X @ ''/'' @ py_str (int N)) q b d h = Inr ?n \<and> raw ?n = xs \<and>
           mask_net ?n = Some ?m \<and> be_value (raw ?m) = 2 ^ 32 - 2 ^ (32 - N) \<and>
           masked ?n = Some ?r \<and> length (raw ?r) = 4 \<and>
           (\<forall>i<4. raw ?r ! i = raw ?n ! i AND raw ?m ! i)"
    using n val lr nth by (simp add: ds)
  then show ?thesis by blast
qed

theorem cidr_mask_value_witness:
  "CHR ''/'' \<notin> set ''1.2.3.4'' \<and> socket_inet_aton ''1.2.3.4'' = Inr [1, 2, 3, 4] \<and>
   (1::nat) \<le> 24 \<and> (24::nat) \<le> 32 \<and>
   (\<exists>n m r. Net_init ''1.2.3.4/24'' True True True True = Inr n \<and> raw n = [1, 2, 3, 4] \<and>
      mask_net n = Some m \<and> be_value (raw m) = 4294967040 \<and> raw m = [255, 255, 255, 0] \<and>
      masked n = Some r \<and> raw r = [1, 2, 3, 0])"
proof -
  have s: "CHR ''/'' \<notin> set ''1.2.3.4''" by simp
  have le: "(1::nat) \<le> 24" "(24::nat) \<le> 32" by simp_all
  have x: "socket_inet_aton ''1.2.3.4'' = Inr [1, 2, 3, 4]"
    by (simp add: socket_inet_aton_def inet_aton_1_2_3_4)
  from cidr_mask_value [OF s x le, of True True True True]
  obtain n m r where n: "Net_init (''1.2.3.4'' @ ''/'' @ py_str (int 24)) True True True True = Inr n"
    and rn: "raw n = [1, 2, 3, 4]" and m: "mask_net n = Some m"
    and v: "be_value (raw m) = 2 ^ 32 - 2 ^ (32 - 24)" and r: "masked n = Some r"
    and lr: "length (raw r) = 4" and nth: "\<forall>i<4. raw r ! i = raw n ! i AND raw m ! i"
    by blast
  have n': "Net_init ''1.2.3.4/24'' True True True True = Inr n"
    using n by (simp add: numeral_text)
  have rm: "raw m = [255, 255, 255, 0]"
    using n' m by (simp add: Net_init_1_2_3_4_24) auto
  have "raw r = [raw r ! 0, raw r ! 1, raw r ! 2, raw r ! 3]" using lr by (rule length4_nth)
  also have "\<dots> = [1, 2, 3, 0]" using nth rn rm by simp
  finally have rr: "raw r = [1, 2, 3, 0]" .
  have "be_value (raw m) = 4294967040" using v by simp
  with n' rn m rm r rr
  have "\<exists>n m r. Net_init ''1.2.3.4/24'' True True True True = Inr n \<and> raw n = [1, 2, 3, 4] \<and>
      mask_net n = Some m \<and> be_value (raw m) = 4294967040 \<and> raw m = [255, 255, 255, 0] \<and>
      masked n = Some r \<and> raw r = [1, 2, 3, 0]" by blast
  with s x le show ?thesis by (intro conjI)
qed

subsection \<open>C5\<close>

text \<open>
  C5. For octets \<open>a b c d\<close> from 0 to 255 and the text \<^verbatim>\<open>a.b.c.d\<close> of their decimal
  numerals, the constructor returns a value whose decimal representation is the number
  \<open>a * 256^3 + b * 256^2 + c * 256 + d\<close> in exactly 10 decimal digits with zeros in
  front, and whose hex representation is the same number in exactly 8 lowercase
  hexadecimal digits.
\<close>

theorem dotted_quad_decimal_hex:
  assumes "a < 256" "b < 256" "c < 256" "d < 256"
  shows "\<exists>n. Net_init (py_str (int a) @ ''.'' @ py_str (int b) @ ''.'' @ py_str (int c) @ ''.'' @
                         py_str (int d)) show_quad show_bin show_dec show_hex = Inr n \<and>
           as_string (formats n Dec) =
             fixed_digits 10 10 (a * 256 ^ 3 + b * 256 ^ 2 + c * 256 + d) \<and>
           as_string (formats n Hex) =
             fixed_digits 16 8 (a * 256 ^ 3 + b * 256 ^ 2 + c * 256 + d)"
proof -
  let ?bs = "[of_nat a, of_nat b, of_nat c, of_nat d] :: byte list"
  let ?v = "a * 256 ^ 3 + b * 256 ^ 2 + c * 256 + d"
  let ?n = "Net (dotted ?bs) None None ?bs (spec_formats ?bs show_quad show_bin show_dec show_hex)"
  have dq: "dotted ?bs = py_str (int a) @ ''.'' @ py_str (int b) @ ''.'' @ py_str (int c) @ ''.'' @
                         py_str (int d)"
    using assms by (simp add: dotted_def uint_of_nat_byte)
  have n: "Net_init (dotted ?bs) show_quad show_bin show_dec show_hex = Inr ?n"
    by (rule Net_init_dotted_text) simp
  have v: "be_value ?bs = int ?v"
    using assms by (simp add: be_value_quad uint_of_nat_byte)
  have bound: "?v < 2 ^ 32"
  proof -
    have "?v \<le> 255 * 256 ^ 3 + 255 * 256 ^ 2 + 255 * 256 + 255"
      using assms by (intro add_mono mult_le_mono1) simp_all
    then show ?thesis by simp
  qed
  have "?v < 10 ^ Suc 9" using bound by simp
  then have "format_zero (Suc 9) 10 (int ?v) = fixed_digits 10 (Suc 9) ?v"
    by (intro format_zero_fixed) simp_all
  then have dec: "spec_decimal ?bs = fixed_digits 10 10 ?v"
    by (simp add: spec_decimal_def v)
  have "?v < 16 ^ Suc 7" using bound by simp
  then have "format_zero (Suc 7) 16 (int ?v) = fixed_digits 16 (Suc 7) ?v"
    by (intro format_zero_fixed) simp_all
  then have hex: "spec_hex ?bs = fixed_digits 16 8 ?v"
    by (simp add: spec_hex_def v)
  have "as_string (formats ?n Dec) = fixed_digits 10 10 ?v"
    "as_string (formats ?n Hex) = fixed_digits 16 8 ?v"
    by (simp_all add: spec_formats_def dec hex)
  with n show ?thesis unfolding dq by blast
qed

theorem dotted_quad_decimal_hex_witness:
  "(1::nat) < 256 \<and> (2::nat) < 256 \<and> (3::nat) < 256 \<and> (4::nat) < 256 \<and>
   (\<exists>n. Net_init ''1.2.3.4'' True True True True = Inr n \<and>
        as_string (formats n Dec) = ''0016909060'' \<and>
        as_string (formats n Hex) = ''01020304'')"
proof -
  have "fixed_digits 10 10 16909060 = ''0016909060''"
    by (simp add: fixed_digits_numeral digit_char_def)
  moreover have "fixed_digits 16 8 16909060 = ''01020304''"
    by (simp add: fixed_digits_numeral digit_char_def)
  ultimately show ?thesis
    using dotted_quad_decimal_hex [of 1 2 3 4 True True True True]
    by (simp add: numeral_text)
qed

subsection \<open>C6\<close>

text \<open>
  C6. The display string of a value that the constructor returned, from flags
  \<open>q b d h\<close>: without a mask it is the line of the visible representations (quad, binary,
  decimal, hex in this order, joined by the separator); with a mask the masked result is
  present too, and the string is three blanks, that line, a newline and \<^verbatim>\<open>" & "\<close> with
  the string of the mask, a newline and \<^verbatim>\<open>" = "\<close> with the string of the masked result,
  each of the two the line of its own bytes.
\<close>

theorem display_string:
  assumes "Net_init net q b d h = Inr n"
  shows "(mask_net n = None \<longrightarrow> Net_str n = spec_line (raw n) q b d h) \<and>
         (\<forall>m. mask_net n = Some m \<longrightarrow>
            (\<exists>r. masked n = Some r \<and>
               Net_str n = ''   '' @ spec_line (raw n) q b d h @
                           [CHR 0x0A] @ '' & '' @ Net_str m @
                           [CHR 0x0A] @ '' = '' @ Net_str r \<and>
               Net_str m = spec_line (raw m) q b d h \<and>
               Net_str r = spec_line (raw r) q b d h))"
  using assms
proof (cases rule: Net_init_cases)
  case plain
  then show ?thesis by (simp add: Net_str_plain)
next
  case (masked base_address netmask m)
  let ?r = "masked_net (raw n) (raw m) q b d h"
  have "Net_str n = ''   '' @ spec_line (raw n) q b d h @ [CHR 0x0A] @ '' & '' @ Net_str m
                      @ [CHR 0x0A] @ '' = '' @ Net_str ?r"
    using masked(12,13,15) by (rule Net_str_masked)
  moreover have "Net_str m = spec_line (raw m) q b d h"
    using masked(6,7,9) by (rule Net_str_plain)
  moreover have "Net_str ?r = spec_line (raw ?r) q b d h"
    by (simp add: Net_str_masked_net)
  ultimately show ?thesis using masked(12,13) by simp
qed

theorem display_string_witness:
  "(\<exists>n. Net_init ''1.2.3.4'' False False True True = Inr n \<and> mask_net n = None \<and>
        Net_str n = ''0016909060  <=>  01020304'') \<and>
   (\<exists>n m. Net_init ''1.2.3.4/24'' True True True True = Inr n \<and> mask_net n = Some m \<and>
        Net_str n =
          ''     1.  2.  3.  4  <=>  00000001 00000010 00000011 00000100  <=>  0016909060  <=>  01020304'' @
          [CHR 0x0A] @
          '' & 255.255.255.  0  <=>  11111111 11111111 11111111 00000000  <=>  4294967040  <=>  ffffff00'' @
          [CHR 0x0A] @
          '' =   1.  2.  3.  0  <=>  00000001 00000010 00000011 00000000  <=>  0016909056  <=>  01020300'')"
proof -
  let ?p = "Net ''1.2.3.4'' None None [1, 2, 3, 4] (spec_formats [1, 2, 3, 4] False False True True)"
  have p: "Net_init ''1.2.3.4'' False False True True = Inr ?p" by (rule Net_init_1_2_3_4)
  from display_string [OF p] have "Net_str ?p = ''0016909060  <=>  01020304''"
    by (simp add: spec_line_dec_hex)
  with p have 1: "\<exists>n. Net_init ''1.2.3.4'' False False True True = Inr n \<and> mask_net n = None \<and>
        Net_str n = ''0016909060  <=>  01020304''" by simp
  let ?m = "Net ''24'' None None [255, 255, 255, 0] (spec_formats [255, 255, 255, 0] True True True True)"
  let ?r = "masked_net [1, 2, 3, 4] [255, 255, 255, 0] True True True True"
  let ?n = "Net ''1.2.3.4/24'' (Some ?m) (Some ?r) [1, 2, 3, 4]
              (spec_formats [1, 2, 3, 4] True True True True)"
  have n: "Net_init ''1.2.3.4/24'' True True True True = Inr ?n" by (rule Net_init_1_2_3_4_24)
  from display_string [OF n]
  have "Net_str ?n = ''   '' @ spec_line [1, 2, 3, 4] True True True True @
                           [CHR 0x0A] @ '' & '' @ spec_line [255, 255, 255, 0] True True True True @
                           [CHR 0x0A] @ '' = '' @ spec_line [1, 2, 3, 0] True True True True"
    by (simp add: and_bytes_quad)
  then have "Net_str ?n =
          ''     1.  2.  3.  4  <=>  00000001 00000010 00000011 00000100  <=>  0016909060  <=>  01020304'' @
          [CHR 0x0A] @
          '' & 255.255.255.  0  <=>  11111111 11111111 11111111 00000000  <=>  4294967040  <=>  ffffff00'' @
          [CHR 0x0A] @
          '' =   1.  2.  3.  0  <=>  00000001 00000010 00000011 00000000  <=>  0016909056  <=>  01020300''"
    by (simp only: spec_line_1_2_3_4 spec_line_mask_24 spec_line_1_2_3_0) simp
  with n have 2: "\<exists>n m. Net_init ''1.2.3.4/24'' True True True True = Inr n \<and> mask_net n = Some m \<and>
        Net_str n =
          ''     1.  2.  3.  4  <=>  00000001 00000010 00000011 00000100  <=>  0016909060  <=>  01020304'' @
          [CHR 0x0A] @
          '' & 255.255.255.  0  <=>  11111111 11111111 11111111 00000000  <=>  4294967040  <=>  ffffff00'' @
          [CHR 0x0A] @
          '' =   1.  2.  3.  0  <=>  00000001 00000010 00000011 00000000  <=>  0016909056  <=>  01020300''"
    by (intro exI [of _ ?n] exI [of _ ?m]) simp
  from 1 2 show ?thesis ..
qed

subsection \<open>C7\<close>



subsection \<open>C8\<close>

text \<open>
  C8. In every value that the constructor returned, \<^verbatim>\<open>masked\<close> is present exactly when
  \<^verbatim>\<open>mask\<close> is, and both children have the visible formats of the value itself.
\<close>

theorem children_share_formats:
  assumes "Net_init net q b d h = Inr n"
  shows "(masked n = None) = (mask_net n = None) \<and>
         (\<forall>m. mask_net n = Some m \<longrightarrow> visible_formats m = visible_formats n) \<and>
         (\<forall>r. masked n = Some r \<longrightarrow> visible_formats r = visible_formats n)"
  using assms
proof (cases rule: Net_init_cases)
  case plain
  then show ?thesis by simp
next
  case (masked base_address netmask m)
  have "visible_formats m = visible_formats n"
    using masked(9,15) by (simp add: visible_formats_spec)
  moreover have "visible_formats (masked_net (raw n) (raw m) q b d h) = visible_formats n"
    using masked(15)
    by (simp add: visible_formats_spec [of _ "and_bytes (raw n) (raw m)" q b d h] visible_formats_spec [of n]
        masked_net_def)
  ultimately show ?thesis using masked(12,13) by simp
qed

theorem children_share_formats_witness:
  "\<exists>n m r. Net_init ''1.2.3.4/24'' True False True False = Inr n \<and>
     mask_net n = Some m \<and> masked n = Some r \<and>
     visible_formats n = {Quad, Dec} \<and> visible_formats m = {Quad, Dec} \<and>
     visible_formats r = {Quad, Dec}"
proof -
  let ?m = "Net ''24'' None None [255, 255, 255, 0] (spec_formats [255, 255, 255, 0] True False True False)"
  let ?r = "masked_net [1, 2, 3, 4] [255, 255, 255, 0] True False True False"
  let ?n = "Net ''1.2.3.4/24'' (Some ?m) (Some ?r) [1, 2, 3, 4]
              (spec_formats [1, 2, 3, 4] True False True False)"
  have n: "Net_init ''1.2.3.4/24'' True False True False = Inr ?n" by (rule Net_init_1_2_3_4_24)
  have v: "visible_formats ?n = {Quad, Dec}"
    by (auto simp: visible_formats_def all_formats_def shown_spec_formats)
  from children_share_formats [OF n]
  have "visible_formats ?m = visible_formats ?n" "visible_formats ?r = visible_formats ?n"
    by simp_all
  with v have "visible_formats ?m = {Quad, Dec}" "visible_formats ?r = {Quad, Dec}" by simp_all
  with n v show ?thesis by (intro exI [of _ ?n] exI [of _ ?m] exI [of _ ?r]) simp
qed

subsection \<open>C9\<close>

text \<open>
  C9. Masking a value with itself keeps its packed address: for every value \<open>m\<close> that the
  constructor returned (a netmask among them), \<^verbatim>\<open>m & m\<close> returns a value with the bytes
  of \<open>m\<close>.
\<close>

theorem Net_and_idempotent:
  assumes "Net_init net q b d h = Inr m"
  shows "\<exists>r. Net_and m m = Inr r \<and> raw r = raw m"
proof -
  have "length (raw m) = 4" using assms by (rule Net_init_raw_length)
  then have "Net_and m m = Inr (masked_net (raw m) (raw m) (shown (formats m Quad))
      (shown (formats m Bin)) (shown (formats m Dec)) (shown (formats m Hex)))"
    by (intro Net_and_eq)
  then show ?thesis by (simp add: and_bytes_same)
qed

theorem Net_and_idempotent_witness:
  "Net_init ''24'' True True True True =
     Inr (Net ''24'' None None [255, 255, 255, 0] (spec_formats [255, 255, 255, 0] True True True True)) \<and>
   (\<exists>r. Net_and (Net ''24'' None None [255, 255, 255, 0] (spec_formats [255, 255, 255, 0] True True True True))
               (Net ''24'' None None [255, 255, 255, 0] (spec_formats [255, 255, 255, 0] True True True True))
          = Inr r \<and> raw r = [255, 255, 255, 0])"
  using Net_and_idempotent [OF Net_init_24 [of True True True True]]
  by (simp add: Net_init_24)

subsection \<open>C10\<close>

text \<open>
  C10. The mask operation commutes on the packed addresses: for two values that the
  constructor returned, \<^verbatim>\<open>a & b\<close> and \<^verbatim>\<open>b & a\<close> both return a value, with the same bytes.
\<close>

theorem Net_and_commutes:
  assumes "Net_init net_a qa ba da ha = Inr a" and "Net_init net_b qb bb db hb = Inr b"
  shows "\<exists>r r'. Net_and a b = Inr r \<and> Net_and b a = Inr r' \<and> raw r = raw r'"
proof -
  have la: "length (raw a) = 4" using assms(1) by (rule Net_init_raw_length)
  have lb: "length (raw b) = 4" using assms(2) by (rule Net_init_raw_length)
  show ?thesis
    using Net_and_eq [OF la lb] Net_and_eq [OF lb la] and_bytes_commute [of "raw a" "raw b"]
    by simp
qed

theorem Net_and_commutes_witness:
  "Net_init ''1.2.3.4'' True False False False =
     Inr (Net ''1.2.3.4'' None None [1, 2, 3, 4] (spec_formats [1, 2, 3, 4] True False False False)) \<and>
   Net_init ''24'' False False False True =
     Inr (Net ''24'' None None [255, 255, 255, 0] (spec_formats [255, 255, 255, 0] False False False True)) \<and>
   (\<exists>r r'.
      Net_and (Net ''1.2.3.4'' None None [1, 2, 3, 4] (spec_formats [1, 2, 3, 4] True False False False))
              (Net ''24'' None None [255, 255, 255, 0] (spec_formats [255, 255, 255, 0] False False False True))
        = Inr r \<and>
      Net_and (Net ''24'' None None [255, 255, 255, 0] (spec_formats [255, 255, 255, 0] False False False True))
              (Net ''1.2.3.4'' None None [1, 2, 3, 4] (spec_formats [1, 2, 3, 4] True False False False))
        = Inr r' \<and> raw r = raw r' \<and> raw r = [1, 2, 3, 0] \<and>
      visible_formats r = {Quad} \<and> visible_formats r' = {Hex})"
proof -
  let ?a = "Net ''1.2.3.4'' None None [1, 2, 3, 4] (spec_formats [1, 2, 3, 4] True False False False)"
  let ?b = "Net ''24'' None None [255, 255, 255, 0] (spec_formats [255, 255, 255, 0] False False False True)"
  have a: "Net_init ''1.2.3.4'' True False False False = Inr ?a" by (rule Net_init_1_2_3_4)
  have b: "Net_init ''24'' False False False True = Inr ?b" by (rule Net_init_24)
  from Net_and_commutes [OF a b] obtain r r' where r: "Net_and ?a ?b = Inr r"
    and r': "Net_and ?b ?a = Inr r'" and eq: "raw r = raw r'" by blast
  have "Net_and ?a ?b = Inr (masked_net [1, 2, 3, 4] [255, 255, 255, 0] True False False False)"
    using Net_and_eq [of ?a ?b] by (simp add: shown_spec_formats)
  with r have 1: "r = masked_net [1, 2, 3, 4] [255, 255, 255, 0] True False False False" by simp
  have "Net_and ?b ?a = Inr (masked_net [255, 255, 255, 0] [1, 2, 3, 4] False False False True)"
    using Net_and_eq [of ?b ?a] by (simp add: shown_spec_formats)
  with r' have 2: "r' = masked_net [255, 255, 255, 0] [1, 2, 3, 4] False False False True" by simp
  have 3: "raw r = [1, 2, 3, 0]" by (simp add: 1 and_bytes_quad)
  have 4: "visible_formats r = {Quad}"
    unfolding 1 by (simp add: visible_formats_spec [of _ "and_bytes [1, 2, 3, 4] [255, 255, 255, 0]" True False False False] masked_net_def)
  have 5: "visible_formats r' = {Hex}"
    unfolding 2 by (simp add: visible_formats_spec [of _ "and_bytes [255, 255, 255, 0] [1, 2, 3, 4]" False False False True] masked_net_def)
  have "Net_and ?a ?b = Inr r \<and> Net_and ?b ?a = Inr r' \<and> raw r = raw r' \<and> raw r = [1, 2, 3, 0] \<and>
      visible_formats r = {Quad} \<and> visible_formats r' = {Hex}"
    using r r' eq 3 4 5 by (intro conjI)
  then have "\<exists>r r'. Net_and ?a ?b = Inr r \<and> Net_and ?b ?a = Inr r' \<and> raw r = raw r' \<and>
      raw r = [1, 2, 3, 0] \<and> visible_formats r = {Quad} \<and> visible_formats r' = {Hex}"
    by blast
  with a b show ?thesis by (intro conjI)
qed

end
